theory Spec2Isabelle
  imports Main "HOL-Library.Word"
begin

section \<open>JavaScript values of the wire protocol\<close>

text \<open>
  The frames exchanged with the computors are flat JSON objects. A field of such an
  object is a number (the protocol only carries integers: command, epoch, tick), a
  string, a boolean, \<open>null\<close>, or is missing (\<open>undefined\<close>). An object is the list of
  its own properties in insertion order.
\<close>

datatype jsvalue = Undefined | Null | Boolean bool | Number int | String string

type_synonym jsobject = "(string \<times> jsvalue) list"

text \<open>\<open>obj.name\<close>: the property, \<open>undefined\<close> when the object has none of that name.\<close>

definition get :: "jsobject \<Rightarrow> string \<Rightarrow> jsvalue" where
  "get obj name = (case map_of obj name of None \<Rightarrow> Undefined | Some v \<Rightarrow> v)"

text \<open>Truthiness, as \<open>||\<close> and \<open>if\<close> test it.\<close>

fun truthy :: "jsvalue \<Rightarrow> bool" where
  "truthy Undefined = False"
| "truthy Null = False"
| "truthy (Boolean b) = b"
| "truthy (Number n) = (n \<noteq> 0)"
| "truthy (String s) = (s \<noteq> [])"

text \<open>\<open>a || b\<close>\<close>

definition js_or :: "jsvalue \<Rightarrow> jsvalue \<Rightarrow> jsvalue" where
  "js_or a b = (if truthy a then a else b)"

text \<open>The decimal digits of an integer that is not negative.\<close>

definition digit :: "nat \<Rightarrow> char" where
  "digit d = ''0123456789'' ! d"

function digits :: "int \<Rightarrow> string" where
  "digits n = (if n < 10 then [digit (nat n)] else digits (n div 10) @ [digit (nat (n mod 10))])"
  by pat_completeness auto
termination by (relation "measure nat") auto

declare digits.simps [simp del]

text \<open>
  A number of JavaScript is a double. Up to \<open>2 ^ 53\<close> in magnitude every integer is a
  double of its own. Above that, a double is \<open>m * 2 ^ e\<close> with \<open>m\<close> of 53 bits, and
  an integer written in a program or a frame stands for the nearest one (the even \<open>m\<close>
  on a tie).
\<close>

function bitlen :: "int \<Rightarrow> nat" where
  "bitlen n = (if n \<le> 0 then 0 else Suc (bitlen (n div 2)))"
  by pat_completeness auto
termination by (relation "measure nat") auto

declare bitlen.simps [simp del]

definition nearest_double :: "int \<Rightarrow> int" where
  "nearest_double n =
     (if n < 2 ^ 53 then n
      else (let e = bitlen n - 53; q = n div 2 ^ e; r = n mod 2 ^ e; half = 2 ^ (e - 1)
            in (if half < r \<or> (r = half \<and> odd q) then q + 1 else q) * 2 ^ e))"

text \<open>
  Whether the integer \<open>c\<close> reads back as the double \<open>x\<close> (above \<open>2 ^ 53\<close>): it is no
  further from \<open>x\<close> than half the distance to the next double on that side, the halfway
  points included when \<open>m\<close> is even.
\<close>

definition reads_back :: "int \<Rightarrow> int \<Rightarrow> bool" where
  "reads_back x c =
     (let e = bitlen x - 53; m = x div 2 ^ e;
          below = (if m = 2 ^ 52 then 2 ^ (e - 2) else 2 ^ (e - 1));
          above = 2 ^ (e - 1)
      in if even m then x - below \<le> c \<and> c \<le> x + above
         else x - below < c \<and> c < x + above)"

text \<open>The multiple of \<open>10 ^ j\<close> nearest to \<open>x\<close> among those that read back as \<open>x\<close>.\<close>

definition candidate :: "int \<Rightarrow> nat \<Rightarrow> int option" where
  "candidate x j =
     (let c1 = (x div 10 ^ j) * 10 ^ j; c2 = c1 + 10 ^ j
      in if reads_back x c1 \<and> reads_back x c2 then
           (if x - c1 < c2 - x then Some c1
            else if c2 - x < x - c1 then Some c2
            else if even (c1 div 10 ^ j) then Some c1 else Some c2)
         else if reads_back x c1 then Some c1
         else if reads_back x c2 then Some c2
         else None)"

text \<open>
  The shortest sequence of digits that reads back as \<open>x\<close>: the candidate with the most
  trailing zeros, and their number.
\<close>

definition shortest :: "int \<Rightarrow> int \<times> nat" where
  "shortest x =
     (case List.map_filter (\<lambda>j. map_option (\<lambda>c. (c, j)) (candidate x j))
             (rev [0..<length (digits x) + 2]) of
        [] \<Rightarrow> (x, 0)
      | cj # cjs \<Rightarrow> cj)"

text \<open>
  \<open>Number.prototype.toString\<close> on an integer: the decimal digits of the double when
  it is at most \<open>2 ^ 53\<close>; above, its shortest digits, followed by zeros when there are at
  most 21 digits in all, and in exponent notation otherwise (\<open>1e+21\<close>).
\<close>

definition Number_toString :: "int \<Rightarrow> string" where
  "Number_toString n =
     (let x = nearest_double \<bar>n\<bar>; sign = (if n < 0 then ''-'' else [])
      in if x \<le> 2 ^ 53 then sign @ digits x
         else if 2 ^ 1024 \<le> x then sign @ ''Infinity''
         else
           (case shortest x of
              (c, j) \<Rightarrow>
                if length (digits c) \<le> 21 then sign @ digits c
                else
                  (case digits (c div 10 ^ j) of
                     [] \<Rightarrow> []
                   | d # ds \<Rightarrow>
                       sign @ d # (if ds = [] then [] else CHR ''.'' # ds) @ ''e+'' @
                       digits (int (length (digits c)) - 1))))"

text \<open>
  \<open>ToString\<close>: the conversion of string concatenation (\<open>'' + v\<close>) and of property keys
  (\<open>counts[v]\<close>).
\<close>

fun ToString :: "jsvalue \<Rightarrow> string" where
  "ToString Undefined = ''undefined''"
| "ToString Null = ''null''"
| "ToString (Boolean b) = (if b then ''true'' else ''false'')"
| "ToString (Number n) = Number_toString n"
| "ToString (String s) = s"

text \<open>
  The method call \<open>v.toString()\<close>: on \<open>undefined\<close> and \<open>null\<close> it throws a TypeError
  (\<open>None\<close>).
\<close>

fun toString :: "jsvalue \<Rightarrow> string option" where
  "toString Undefined = None"
| "toString Null = None"
| "toString v = Some (ToString v)"

section \<open>Arrays with holes\<close>

text \<open>
  \<open>statusResponses\<close> and the \<open>responses\<close> array of a pending request are filled by index
  (\<open>responses[i] = message.data\<close>). Writing past the end of a JavaScript array extends it,
  and the slots skipped are holes, which read as \<open>undefined\<close>. A slot is \<open>None\<close> when it
  is a hole and \<open>Some data\<close> when it holds the raw text of a frame.
\<close>

type_synonym slots = "string option list"

definition array_set :: "'a option list \<Rightarrow> nat \<Rightarrow> 'a \<Rightarrow> 'a option list" where
  "array_set xs i v =
     (if i < length xs then xs[i := Some v]
      else xs @ replicate (i - length xs) None @ [Some v])"

text \<open>Reading \<open>responses[i]\<close> inside the bounds of the array.\<close>

definition slot_value :: "string option \<Rightarrow> jsvalue" where
  "slot_value s = (case s of None \<Rightarrow> Undefined | Some d \<Rightarrow> String d)"

section \<open>The quorum comparator\<close>

text \<open>
  \<open>counts\<close> is a plain object \<open>{}\<close>. Its own properties are the keys counted so far; every
  other name is looked up in \<open>Object.prototype\<close>, whose properties are functions (or, for
  \<open>__proto__\<close>, an object). \<open>(counts[k] || 0) + 1\<close> is a number for a fresh or a counted
  key, and a string (the inherited value concatenated with \<open>1\<close>) for an inherited name;
  such a string compares false with \<open>v > syncStatus\<close>, so it never becomes the result.
\<close>

datatype count = Count nat | NotANumber

type_synonym counts = "(string \<times> count) list"

definition object_prototype_names :: "string list" where
  "object_prototype_names =
     [''constructor'', ''hasOwnProperty'', ''isPrototypeOf'', ''propertyIsEnumerable'',
      ''toLocaleString'', ''toString'', ''valueOf'', ''__proto__'',
      ''__defineGetter__'', ''__defineSetter__'', ''__lookupGetter__'', ''__lookupSetter__'']"

text \<open>\<open>map.set\<close>-like update of an object: an existing property keeps its place.\<close>

fun assign :: "('k \<times> 'v) list \<Rightarrow> 'k \<Rightarrow> 'v \<Rightarrow> ('k \<times> 'v) list" where
  "assign [] k v = [(k, v)]"
| "assign ((k', v') # kvs) k v = (if k' = k then (k, v) # kvs else (k', v') # assign kvs k v)"

text \<open>\<open>counts[k] = (counts[k] || 0) + 1\<close>\<close>

definition count_up :: "counts \<Rightarrow> string \<Rightarrow> counts" where
  "count_up cs k =
     (case map_of cs k of
        Some (Count n) \<Rightarrow> assign cs k (Count (n + 1))
      | Some NotANumber \<Rightarrow> cs
      | None \<Rightarrow>
          if k = ''__proto__'' then cs
          else if k \<in> set object_prototype_names then assign cs k NotANumber
          else assign cs k (Count 1))"

text \<open>The first loop: every index below \<open>responses.length\<close>, holes included.\<close>

fun count_all :: "counts \<Rightarrow> slots \<Rightarrow> counts" where
  "count_all cs [] = cs"
| "count_all cs (r # rs) = count_all (count_up cs (ToString (slot_value r))) rs"

text \<open>The second loop over \<open>Object.values(counts)\<close>.\<close>

fun largest :: "nat \<Rightarrow> count list \<Rightarrow> nat" where
  "largest syncStatus [] = syncStatus"
| "largest syncStatus (Count v # vs) = largest (if v > syncStatus then v else syncStatus) vs"
| "largest syncStatus (NotANumber # vs) = largest syncStatus vs"

definition compareResponses :: "slots \<Rightarrow> nat" where
  "compareResponses responses = largest 0 (map snd (count_all [] responses))"

section \<open>The admin-signed payload and the signature check\<close>

type_synonym byte = "8 word"

definition NUMBER_OF_CONNECTIONS :: nat where
  "NUMBER_OF_CONNECTIONS = 3"

definition EPOCH_OFFSET :: nat where
  "EPOCH_OFFSET = 0"

definition EPOCH_LENGTH :: nat where
  "EPOCH_LENGTH = 4"

definition TICK_OFFSET :: nat where
  "TICK_OFFSET = EPOCH_OFFSET + EPOCH_LENGTH"

definition TICK_LENGTH :: nat where
  "TICK_LENGTH = 2"

text \<open>
  What the core takes from its collaborators and from the JavaScript runtime:
  \<^item> \<open>JSON_parse\<close>: \<open>JSON.parse\<close> on the text of a frame; \<open>None\<close> when it throws or when
    the value is not an object (see \<open>onmessage\<close>);
  \<^item> \<open>JSON_stringify\<close>: \<open>JSON.stringify\<close> of a request object;
  \<^item> \<open>StringToNumber\<close>: the numeric value of a string, \<open>None\<close> for NaN;
  \<^item> \<open>base64\<close>: the bytes \<open>Buffer.from(s, 'base64')\<close> decodes from a string;
  \<^item> \<open>shiftedHexToBytes\<close>: the helper of \<open>utils/hex.js\<close>;
  \<^item> \<open>SchnorrQ_Verify\<close>: the compiled FourQ routine, given the public key, the message,
    the message length and the signature; its result is the validity flag it writes.
\<close>

record env =
  JSON_parse :: "string \<Rightarrow> jsobject option"
  JSON_stringify :: "jsobject \<Rightarrow> string"
  StringToNumber :: "string \<Rightarrow> int option"
  base64 :: "string \<Rightarrow> byte list"
  shiftedHexToBytes :: "string \<Rightarrow> byte list"
  SchnorrQ_Verify :: "byte list \<Rightarrow> byte list \<Rightarrow> nat \<Rightarrow> byte list \<Rightarrow> nat"

text \<open>
  \<open>verify\<close> of \<open>crypto/index.js\<close>: the three arrays are copied to the heap of the compiled
  module and the routine is called with \<open>message.length\<close> as the length of the message.
\<close>

definition verify :: "env \<Rightarrow> byte list \<Rightarrow> byte list \<Rightarrow> byte list \<Rightarrow> nat" where
  "verify e publicKey message signature =
     SchnorrQ_Verify e publicKey message (length message) signature"

text \<open>\<open>ToNumber\<close>, \<open>None\<close> for NaN; and the conversion to an unsigned integer of \<open>w\<close> bits.\<close>

fun ToNumber :: "env \<Rightarrow> jsvalue \<Rightarrow> int option" where
  "ToNumber e Undefined = None"
| "ToNumber e Null = Some 0"
| "ToNumber e (Boolean b) = Some (if b then 1 else 0)"
| "ToNumber e (Number n) = Some n"
| "ToNumber e (String s) = StringToNumber e s"

definition ToUint :: "env \<Rightarrow> nat \<Rightarrow> jsvalue \<Rightarrow> nat" where
  "ToUint e w v = (case ToNumber e v of None \<Rightarrow> 0 | Some n \<Rightarrow> nat (n mod 2 ^ w))"

text \<open>\<open>new ArrayBuffer(n)\<close> is zero-filled.\<close>

definition ArrayBuffer_new :: "nat \<Rightarrow> byte list" where
  "ArrayBuffer_new n = replicate n 0"

text \<open>The \<open>n\<close> low bytes of \<open>v\<close>, most significant first (a DataView writes big-endian
  unless asked otherwise).\<close>

definition big_endian :: "nat \<Rightarrow> nat \<Rightarrow> byte list" where
  "big_endian n v = map (\<lambda>k. word_of_nat (v div 256 ^ (n - 1 - k))) [0..<n]"

text \<open>A write outside the buffer is a RangeError (\<open>None\<close>).\<close>

definition store_bytes :: "byte list \<Rightarrow> nat \<Rightarrow> byte list \<Rightarrow> byte list option" where
  "store_bytes buffer offset bs =
     (if offset + length bs \<le> length buffer
      then Some (take offset buffer @ bs @ drop (offset + length bs) buffer)
      else None)"

definition setUint32 :: "env \<Rightarrow> byte list \<Rightarrow> nat \<Rightarrow> jsvalue \<Rightarrow> byte list option" where
  "setUint32 e buffer offset v = store_bytes buffer offset (big_endian 4 (ToUint e 32 v))"

definition setUint16 :: "env \<Rightarrow> byte list \<Rightarrow> nat \<Rightarrow> jsvalue \<Rightarrow> byte list option" where
  "setUint16 e buffer offset v = store_bytes buffer offset (big_endian 2 (ToUint e 16 v))"

text \<open>The buffer \<open>onmessage\<close> fills from \<open>epoch\<close> and \<open>tick\<close>.\<close>

definition info_buffer :: "env \<Rightarrow> jsvalue \<Rightarrow> jsvalue \<Rightarrow> byte list option" where
  "info_buffer e epoch tick =
     (case setUint32 e (ArrayBuffer_new (EPOCH_LENGTH + TICK_LENGTH)) EPOCH_OFFSET epoch of
        None \<Rightarrow> None
      | Some buffer \<Rightarrow> setUint16 e buffer TICK_OFFSET tick)"

text \<open>
  \<open>Uint8Array.from(source)\<close> copies the elements of an iterable or, failing that, of an
  array-like object, whose length is its \<open>length\<close> property. A \<open>Buffer\<close> is a
  \<open>Uint8Array\<close> and is iterable. An \<open>ArrayBuffer\<close> is not iterable and has no \<open>length\<close>
  property (its size is \<open>byteLength\<close>), so its length as an array-like object is 0 and the
  result is empty.
\<close>

datatype source = ArrayBuffer "byte list" | Buffer "byte list"

fun Uint8Array_from :: "source \<Rightarrow> byte list" where
  "Uint8Array_from (Buffer bs) = bs"
| "Uint8Array_from (ArrayBuffer bs) = []"

text \<open>\<open>Buffer.from(signature, 'base64')\<close> throws a TypeError unless \<open>signature\<close> is a
  string.\<close>

fun Buffer_from :: "env \<Rightarrow> jsvalue \<Rightarrow> byte list option" where
  "Buffer_from e (String s) = Some (base64 e s)"
| "Buffer_from e v = None"

text \<open>The message argument handed to \<open>schnorrq.verify\<close> for a command-0 frame.\<close>

definition verified_message :: "env \<Rightarrow> jsvalue \<Rightarrow> jsvalue \<Rightarrow> byte list option" where
  "verified_message e epoch tick = map_option (\<lambda>buffer. Uint8Array_from (ArrayBuffer buffer)) (info_buffer e epoch tick)"

text \<open>
  The condition of the \<open>if\<close> in the command-0 branch: \<open>None\<close> when evaluating an argument
  throws, else whether \<open>verify\<close> returned 1.
\<close>

definition info_verified :: "env \<Rightarrow> string \<Rightarrow> jsobject \<Rightarrow> bool option" where
  "info_verified e adminPublicKey parsedMessage =
     (case verified_message e (get parsedMessage ''epoch'') (get parsedMessage ''tick'') of
        None \<Rightarrow> None
      | Some message \<Rightarrow>
          (case Buffer_from e (get parsedMessage ''signature'') of
             None \<Rightarrow> None
           | Some signature \<Rightarrow>
               Some (verify e (shiftedHexToBytes e adminPublicKey) message
                       (Uint8Array_from (Buffer signature)) = 1)))"

section \<open>The connection\<close>

text \<open>The parameters of \<open>createConnection\<close>; \<open>computors\<close> holds the configured urls.\<close>

record config =
  computors :: "string list"
  synchronizationInterval :: int
  adminPublicKey :: string
  reconnectTimeoutDuration :: int

text \<open>
  A socket as the connection sees it: the url it was opened with, the \<open>url\<close> argument its
  \<open>open\<close> call closed over, whether \<open>socket.onclose\<close> is still the reconnecting handler,
  whether the promise \<open>socket.open\<close> is resolved, and the frames whose
  \<open>socket.open.then(...)\<close> callback has not run yet.
\<close>

record socket =
  computor :: string
  url_argument :: "string option"
  onclose :: bool
  opened :: bool
  deferred :: "string list"

datatype event = Info nat jsvalue jsvalue | Open nat | Close nat | Error nat

text \<open>
  What the connection does to the objects around it, in program order: events handed to
  \<open>emit\<close>, operations on a socket (by index in \<open>sockets\<close>), and the settling of the promise
  of a pending request.
\<close>

datatype effect =
    Emit event
  | SocketNew nat string
  | SocketSend nat string
  | SocketDetach nat
  | SocketClose nat
  | Resolve nat jsobject
  | Reject nat string

datatype task = Reconnect nat "string option" | Routine

text \<open>A pending request: the \<open>responses\<close> array and the promise attached to it.\<close>

record pending =
  responses :: slots
  promise :: nat

text \<open>
  The variables of the closure of \<open>createConnection\<close>. A timer is its handle, the time it
  is due (the time of \<open>setTimeout\<close> plus the delay) and what it runs. \<open>promises\<close> and
  \<open>handles\<close> count the promises and timer handles created so far.
\<close>

record connection =
  sockets :: "socket option list"
  latestSynchronizationTimestamp :: int
  latestSyncStatus :: nat
  synchronizationTimeout :: "nat option"
  statusResponses :: slots
  responsesByKey :: "(string \<times> pending) list"
  requestsByKey :: "(string \<times> string) list"
  timers :: "(nat \<times> int \<times> task) list"
  promises :: nat
  handles :: nat
  effects :: "effect list"

definition initial :: connection where
  "initial = \<lparr>sockets = [], latestSynchronizationTimestamp = 0, latestSyncStatus = 0,
     synchronizationTimeout = None, statusResponses = [], responsesByKey = [],
     requestsByKey = [], timers = [], promises = 0, handles = 0, effects = []\<rparr>"

definition do_effects :: "effect list \<Rightarrow> connection \<Rightarrow> connection" where
  "do_effects es c = c\<lparr>effects := effects c @ es\<rparr>"

text \<open>\<open>map.delete(key)\<close>\<close>

definition delete :: "'k \<Rightarrow> ('k \<times> 'v) list \<Rightarrow> ('k \<times> 'v) list" where
  "delete k kvs = filter (\<lambda>kv. fst kv \<noteq> k) kvs"

text \<open>\<open>setTimeout(task, delay)\<close> at time \<open>now\<close>: the new handle and the state.\<close>

definition setTimeout :: "int \<Rightarrow> task \<Rightarrow> int \<Rightarrow> connection \<Rightarrow> nat \<times> connection" where
  "setTimeout now t delay c =
     (handles c, c\<lparr>timers := timers c @ [(handles c, now + delay, t)], handles := handles c + 1\<rparr>)"

definition clearTimeout :: "nat option \<Rightarrow> connection \<Rightarrow> connection" where
  "clearTimeout h c =
     (case h of None \<Rightarrow> c | Some n \<Rightarrow> c\<lparr>timers := filter (\<lambda>t. fst t \<noteq> n) (timers c)\<rparr>)"

text \<open>\<open>sockets[i]\<close>: \<open>undefined\<close> (\<open>None\<close>) past the end of the array and at a hole.\<close>

definition socket_at :: "connection \<Rightarrow> nat \<Rightarrow> socket option" where
  "socket_at c i = (if i < length (sockets c) then sockets c ! i else None)"

subsection \<open>Inbound frames\<close>

text \<open>\<open>sockets[i].close()\<close> in the \<open>catch\<close> block; with no socket at \<open>i\<close> the call itself
  throws and nothing happens.\<close>

definition socket_close :: "nat \<Rightarrow> connection \<Rightarrow> connection" where
  "socket_close i c = (if socket_at c i \<noteq> None then do_effects [SocketClose i] c else c)"

text \<open>The body of the \<open>if\<close> for a verified command-0 frame.\<close>

definition info_update :: "int \<Rightarrow> nat \<Rightarrow> string \<Rightarrow> jsvalue \<Rightarrow> jsvalue \<Rightarrow> connection \<Rightarrow> connection" where
  "info_update now i data epoch tick c =
     (let c1 = c\<lparr>statusResponses := array_set (statusResponses c) i data\<rparr>;
          syncStatus = compareResponses (statusResponses c1)
      in if latestSyncStatus c1 < syncStatus then
           (let c2 = do_effects [Emit (Info syncStatus epoch tick)]
                       (c1\<lparr>latestSynchronizationTimestamp := now, latestSyncStatus := syncStatus\<rparr>)
            in if syncStatus = NUMBER_OF_CONNECTIONS
               then c2\<lparr>latestSyncStatus := 0, statusResponses := []\<rparr>
               else c2)
         else c1)"

text \<open>The part of \<open>onmessage\<close> after the key of a reply is computed.\<close>

definition reply_update :: "string \<Rightarrow> nat \<Rightarrow> string \<Rightarrow> jsobject \<Rightarrow> connection \<Rightarrow> connection" where
  "reply_update key i data parsedMessage c =
     (case map_of (responsesByKey c) key of
        None \<Rightarrow> c
      | Some p \<Rightarrow>
          (let rs = array_set (responses p) i data
           in if compareResponses rs \<ge> 2 then
                do_effects [Resolve (promise p) parsedMessage]
                  (c\<lparr>responsesByKey := delete key (responsesByKey c),
                     requestsByKey := delete key (requestsByKey c)\<rparr>)
              else if length rs = NUMBER_OF_CONNECTIONS then
                do_effects [Reject (promise p) ''Invalid responses.'']
                  (c\<lparr>responsesByKey := delete key (responsesByKey c),
                     requestsByKey := delete key (requestsByKey c)\<rparr>)
              else c\<lparr>responsesByKey := assign (responsesByKey c) key (p\<lparr>responses := rs\<rparr>)\<rparr>))"

text \<open>The key of an inbound reply; \<open>None\<close> when \<open>command.toString()\<close> throws.\<close>

definition reply_key :: "jsobject \<Rightarrow> string option" where
  "reply_key parsedMessage =
     map_option (\<lambda>command. command @ ToString (js_or (get parsedMessage ''identity'') (get parsedMessage ''hash'')))
       (toString (get parsedMessage ''command''))"

text \<open>
  The handler of socket \<open>i\<close> for a frame with text \<open>data\<close>, run at time \<open>now\<close>. Everything
  that throws inside the \<open>try\<close> ends in the \<open>catch\<close> block: a text that does not parse, a
  parsed value without a \<open>command\<close> to call \<open>toString\<close> on (every value that is not an
  object is one), an argument of \<open>verify\<close> that cannot be built.
\<close>

definition onmessage :: "env \<Rightarrow> config \<Rightarrow> int \<Rightarrow> nat \<Rightarrow> string \<Rightarrow> connection \<Rightarrow> connection" where
  "onmessage e cfg now i data c =
     (case JSON_parse e data of
        None \<Rightarrow> socket_close i c
      | Some parsedMessage \<Rightarrow>
          if get parsedMessage ''command'' = Number 0 then
            (case info_verified e (adminPublicKey cfg) parsedMessage of
               None \<Rightarrow> socket_close i c
             | Some False \<Rightarrow> c
             | Some True \<Rightarrow>
                 info_update now i data (get parsedMessage ''epoch'') (get parsedMessage ''tick'') c)
          else
            (case reply_key parsedMessage of
               None \<Rightarrow> socket_close i c
             | Some key \<Rightarrow> reply_update key i data parsedMessage c))"

subsection \<open>Outbound commands\<close>

text \<open>\<open>{ command, ...payload }\<close>\<close>

definition spread :: "int \<Rightarrow> jsobject \<Rightarrow> jsobject" where
  "spread command payload = foldl (\<lambda>obj kv. assign obj (fst kv) (snd kv)) [(''command'', Number command)] payload"

text \<open>
  \<open>socket.open.then(function () { socket.send(request) })\<close> for one socket: the send runs
  at once when the promise is resolved already, and waits for it otherwise.
\<close>

definition send_when_open :: "string \<Rightarrow> nat \<Rightarrow> connection \<Rightarrow> connection" where
  "send_when_open request i c =
     (case socket_at c i of
        None \<Rightarrow> c
      | Some s \<Rightarrow>
          if opened s then do_effects [SocketSend i request] c
          else c\<lparr>sockets := (sockets c)[i := Some (s\<lparr>deferred := deferred s @ [request]\<rparr>)]\<rparr>)"

text \<open>\<open>sockets.forEach\<close> of the above.\<close>

definition broadcast :: "string \<Rightarrow> connection \<Rightarrow> connection" where
  "broadcast request c = fold (send_when_open request) [0..<length (sockets c)] c"

definition request_key :: "int \<Rightarrow> jsobject \<Rightarrow> string" where
  "request_key command payload =
     Number_toString command @ ToString (js_or (get payload ''identity'') (get payload ''hash''))"

text \<open>
  The callback of \<open>sendCommand\<close>, which runs once the \<open>open\<close> promises of the sockets of the
  call are resolved. Its result is the promise the caller's promise follows, if any.
\<close>

definition sendCommand :: "env \<Rightarrow> int \<Rightarrow> jsobject \<Rightarrow> connection \<Rightarrow> nat option \<times> connection" where
  "sendCommand e command payload c =
     (let key = request_key command payload
      in case map_of (responsesByKey c) key of
           Some rs \<Rightarrow> (Some (promise rs), c)
         | None \<Rightarrow>
             (let request = JSON_stringify e (spread command payload)
              in if command \<noteq> 3 then
                   (Some (promises c),
                    broadcast request
                      (c\<lparr>responsesByKey := assign (responsesByKey c) key \<lparr>responses = [], promise = promises c\<rparr>,
                         requestsByKey := assign (requestsByKey c) key request,
                         promises := promises c + 1\<rparr>))
                 else (None, broadcast request c)))"

subsection \<open>The watchdog\<close>

text \<open>\<open>synchronizationRoutine\<close>, run at time \<open>now\<close>.\<close>

definition synchronizationRoutine :: "config \<Rightarrow> int \<Rightarrow> connection \<Rightarrow> connection" where
  "synchronizationRoutine cfg now c =
     (let c1 = (if now - latestSynchronizationTimestamp c > synchronizationInterval cfg
                then do_effects [Emit (Info 0 Undefined Undefined)] (c\<lparr>latestSyncStatus := 0\<rparr>)
                else c);
          (h, c2) = setTimeout now Routine (synchronizationInterval cfg) c1
      in c2\<lparr>synchronizationTimeout := Some h\<rparr>)"

subsection \<open>Opening and closing sockets\<close>

datatype error = TypeError

text \<open>
  \<open>openSocket(i)\<close> inside \<open>open(index, url)\<close>. Reading \<open>computors[i].options\<close> throws when
  no computor is configured at \<open>i\<close>. The new socket replaces \<open>sockets[i]\<close>.
\<close>

definition openSocket :: "config \<Rightarrow> string option \<Rightarrow> nat \<Rightarrow> connection \<Rightarrow> error + connection" where
  "openSocket cfg url i c =
     (if i < length (computors cfg) then
        (let u = (case url of None \<Rightarrow> computors cfg ! i
                  | Some a \<Rightarrow> if a \<noteq> [] then a else computors cfg ! i)
         in Inr (do_effects [SocketNew i u]
                  (c\<lparr>sockets := array_set (sockets c) i
                       \<lparr>computor = u, url_argument = url, onclose = True, opened = False, deferred = []\<rparr>\<rparr>)))
      else Inl TypeError)"

text \<open>The loop \<open>for (let i = 0; i < NUMBER_OF_CONNECTIONS; i++) openSocket(i)\<close>.\<close>

fun openSockets :: "config \<Rightarrow> nat list \<Rightarrow> connection \<Rightarrow> error + connection" where
  "openSockets cfg [] c = Inr c"
| "openSockets cfg (i # is) c =
     (case openSocket cfg None i c of Inl err \<Rightarrow> Inl err | Inr c' \<Rightarrow> openSockets cfg is c')"

text \<open>\<open>open(index, url)\<close>, at time \<open>now\<close>; the method \<open>Connection.open\<close> calls it without
  arguments.\<close>

definition "open" :: "config \<Rightarrow> int \<Rightarrow> nat option \<Rightarrow> string option \<Rightarrow> connection \<Rightarrow> error + connection" where
  "open cfg now index url c =
     (case index of
        None \<Rightarrow>
          (case openSockets cfg [0..<NUMBER_OF_CONNECTIONS] (c\<lparr>sockets := []\<rparr>) of
             Inl err \<Rightarrow> Inl err
           | Inr c' \<Rightarrow> Inr (synchronizationRoutine cfg now c'))
      | Some i \<Rightarrow> openSocket cfg url i c)"

text \<open>\<open>createConnection\<close>, called at time \<open>now\<close>: the fresh closure, then \<open>connection.open()\<close>.\<close>

definition createConnection :: "config \<Rightarrow> int \<Rightarrow> error + connection" where
  "createConnection cfg now = open cfg now None None initial"

text \<open>\<open>socket.terminate()\<close> of \<open>sockets[i]\<close>.\<close>

definition socket_terminate :: "nat \<Rightarrow> connection \<Rightarrow> connection" where
  "socket_terminate i c =
     (case socket_at c i of
        None \<Rightarrow> c
      | Some s \<Rightarrow>
          do_effects [SocketDetach i, SocketClose i]
            (c\<lparr>sockets := (sockets c)[i := Some (s\<lparr>onclose := False\<rparr>)]\<rparr>))"

text \<open>\<open>Connection.close\<close>\<close>

definition close :: "connection \<Rightarrow> connection" where
  "close c =
     do_effects [Emit (Info 0 Undefined Undefined)]
       (clearTimeout (synchronizationTimeout c)
          (fold socket_terminate [0..<length (sockets c)] c))"

subsection \<open>Socket events and timers\<close>

text \<open>The promise \<open>socket.open\<close> of \<open>sockets[i]\<close> resolves: the waiting sends run.\<close>

definition resolveOnOpenOrClose :: "nat \<Rightarrow> connection \<Rightarrow> connection" where
  "resolveOnOpenOrClose i c =
     (case socket_at c i of
        None \<Rightarrow> c
      | Some s \<Rightarrow>
          do_effects (map (SocketSend i) (deferred s))
            (c\<lparr>sockets := (sockets c)[i := Some (s\<lparr>opened := True, deferred := []\<rparr>)]\<rparr>))"

text \<open>\<open>onopen(socket)\<close>: every stored request is sent again.\<close>

definition onopen :: "nat \<Rightarrow> connection \<Rightarrow> connection" where
  "onopen i c = do_effects (map (\<lambda>kv. SocketSend i (snd kv)) (requestsByKey c)) c"

text \<open>The \<open>open\<close> event of the socket at \<open>sockets[i]\<close>.\<close>

definition socket_onopen :: "nat \<Rightarrow> connection \<Rightarrow> connection" where
  "socket_onopen i c =
     (if socket_at c i \<noteq> None
      then resolveOnOpenOrClose i (onopen i (do_effects [Emit (Open i)] c))
      else c)"

text \<open>The \<open>close\<close> event of the socket at \<open>sockets[i]\<close>, at time \<open>now\<close>: the handler runs only
  while it is attached.\<close>

definition socket_onclose :: "config \<Rightarrow> int \<Rightarrow> nat \<Rightarrow> connection \<Rightarrow> connection" where
  "socket_onclose cfg now i c =
     (case socket_at c i of
        None \<Rightarrow> c
      | Some s \<Rightarrow>
          if onclose s then
            snd (setTimeout now (Reconnect i (url_argument s)) (reconnectTimeoutDuration cfg)
                   (resolveOnOpenOrClose i (do_effects [Emit (Close i)] c)))
          else c)"

text \<open>The \<open>error\<close> event of the socket at \<open>sockets[i]\<close>.\<close>

definition socket_onerror :: "nat \<Rightarrow> connection \<Rightarrow> connection" where
  "socket_onerror i c = (if socket_at c i \<noteq> None then do_effects [Emit (Error i)] c else c)"

text \<open>What a timer runs; an exception in \<open>openSocket\<close> leaves the state as it was.\<close>

definition run_task :: "config \<Rightarrow> int \<Rightarrow> task \<Rightarrow> connection \<Rightarrow> connection" where
  "run_task cfg now t c =
     (case t of
        Routine \<Rightarrow> synchronizationRoutine cfg now c
      | Reconnect i url \<Rightarrow> (case openSocket cfg url i c of Inl err \<Rightarrow> c | Inr c' \<Rightarrow> c'))"

text \<open>The timer with handle \<open>h\<close> fires, at the time it is due. A handle that is not
  pending (cleared, or fired already) runs nothing.\<close>

definition fire :: "config \<Rightarrow> nat \<Rightarrow> connection \<Rightarrow> connection" where
  "fire cfg h c =
     (case find (\<lambda>t. fst t = h) (timers c) of
        None \<Rightarrow> c
      | Some (h', due, t) \<Rightarrow> run_task cfg due t (c\<lparr>timers := filter (\<lambda>t. fst t \<noteq> h) (timers c)\<rparr>))"

text \<open>The watchdog left to itself: the timer \<open>synchronizationTimeout\<close> names fires.\<close>

definition watchdog_fires :: "config \<Rightarrow> connection \<Rightarrow> connection" where
  "watchdog_fires cfg c = (case synchronizationTimeout c of None \<Rightarrow> c | Some h \<Rightarrow> fire cfg h c)"

text \<open>The time at which the routine runs next: when the timer it armed last is due.\<close>

definition next_run :: "connection \<Rightarrow> int option" where
  "next_run c =
     (case synchronizationTimeout c of
        None \<Rightarrow> None
      | Some h \<Rightarrow> map_option (\<lambda>t. fst (snd t)) (find (\<lambda>t. fst t = h) (timers c)))"

text \<open>
  The state of a running watchdog: every pending timer has a handle handed out before,
  and the timer that \<open>synchronizationTimeout\<close> names is pending, due at \<open>t\<close>, and runs the
  routine.
\<close>

definition armed :: "connection \<Rightarrow> int \<Rightarrow> bool" where
  "armed c t \<longleftrightarrow>
     (\<forall>x\<in>set (timers c). fst x < handles c) \<and>
     (\<exists>h. synchronizationTimeout c = Some h \<and> find (\<lambda>x. fst x = h) (timers c) = Some (h, t, Routine))"

text \<open>Socket \<open>i\<close> has no close handler: there is no socket, or its \<open>onclose\<close> was reset.\<close>

definition detached :: "connection \<Rightarrow> nat \<Rightarrow> bool" where
  "detached c i \<longleftrightarrow> (case socket_at c i of None \<Rightarrow> True | Some s \<Rightarrow> \<not> onclose s)"

subsection \<open>Runs of the connection\<close>

text \<open>
  What can happen to a connection between two moments: a frame arrives on a socket, a
  command is sent, a socket opens, closes or fails, a timer fires, the connection is closed.
\<close>

datatype step =
    Message int nat string
  | Command int jsobject
  | SocketOpened nat
  | SocketClosed int nat
  | SocketErrored nat
  | Fired nat
  | Closed

fun apply_step :: "env \<Rightarrow> config \<Rightarrow> step \<Rightarrow> connection \<Rightarrow> connection" where
  "apply_step e cfg (Message now i data) c = onmessage e cfg now i data c"
| "apply_step e cfg (Command command payload) c = snd (sendCommand e command payload c)"
| "apply_step e cfg (SocketOpened i) c = socket_onopen i c"
| "apply_step e cfg (SocketClosed now i) c = socket_onclose cfg now i c"
| "apply_step e cfg (SocketErrored i) c = socket_onerror i c"
| "apply_step e cfg (Fired h) c = fire cfg h c"
| "apply_step e cfg Closed c = close c"

definition run :: "env \<Rightarrow> config \<Rightarrow> step list \<Rightarrow> connection \<Rightarrow> connection" where
  "run e cfg steps c = fold (apply_step e cfg) steps c"

text \<open>Whether the promise \<open>socket.open\<close> of socket \<open>i\<close> is resolved, and the frames
  waiting for it.\<close>

definition is_open :: "connection \<Rightarrow> nat \<Rightarrow> bool" where
  "is_open c i = (case socket_at c i of None \<Rightarrow> False | Some s \<Rightarrow> opened s)"

definition waiting :: "connection \<Rightarrow> nat \<Rightarrow> string list" where
  "waiting c i = (case socket_at c i of None \<Rightarrow> [] | Some s \<Rightarrow> deferred s)"

text \<open>Every pending timer has a handle that was handed out before.\<close>

definition fresh_handles :: "connection \<Rightarrow> bool" where
  "fresh_handles c \<longleftrightarrow> (\<forall>t\<in>set (timers c). fst t < handles c)"

section \<open>The quorum size as the specification words it\<close>

text \<open>
  The specification's \<open>quorum_size\<close>: among the payloads that are present, the number of
  occurrences of the one that occurs most often (0 when none is present). It is stated
  next to \<open>compareResponses\<close> for comparison and is not taken from the code.
\<close>

fun present :: "'a option list \<Rightarrow> 'a list" where
  "present [] = []"
| "present (None # xs) = present xs"
| "present (Some x # xs) = x # present xs"

definition quorum_size :: "slots \<Rightarrow> nat" where
  "quorum_size slots = fold max (map (count_list (present slots)) (present slots)) 0"

text \<open>
  For the comparison: the number a key has been counted up to, the counts object while
  every key in it is counted by a number, and the numbers among the values.
\<close>

definition tally :: "counts \<Rightarrow> string \<Rightarrow> nat" where
  "tally cs k = (case map_of cs k of Some (Count n) \<Rightarrow> n | _ \<Rightarrow> 0)"

definition clean :: "counts \<Rightarrow> bool" where
  "clean cs \<longleftrightarrow> distinct (map fst cs) \<and> (\<forall>k v. map_of cs k = Some v \<longrightarrow> (\<exists>n. v = Count n \<and> 0 < n))"

fun numbers :: "count list \<Rightarrow> nat list" where
  "numbers [] = []"
| "numbers (Count n # vs) = n # numbers vs"
| "numbers (NotANumber # vs) = numbers vs"

section \<open>The client\<close>

text \<open>
  The client mixes the outbox into a connection. It talks to the connection
  (\<open>sendCommand\<close>, \<open>open\<close>, \<open>close\<close>), to the store (\<open>put\<close>, \<open>del\<close>, \<open>open\<close>, \<open>close\<close>) and to
  its own listeners (\<open>inclusion\<close>, \<open>rejection\<close>); these calls, in the order they are made or
  complete, are its trace. \<open>Put\<close> and \<open>Del\<close> stand for the completed operation on the store,
  and \<open>Failed\<close> for the error a call of \<open>transaction\<close> ends with.
\<close>

datatype client_error =
    InsufficientEnergy | InvalidInteger | QueryRejected string | BuildFailed string | StoreError

datatype client_effect =
    Put string string
  | Del string
  | SendCommand int jsobject
  | Inclusion string jsvalue jsvalue
  | Rejection string jsvalue
  | Failed client_error
  | ConnectionOpen
  | ConnectionClose
  | DbOpen
  | DbClose

text \<open>How a promise the client awaits is settled.\<close>

datatype 'a outcome = Fulfilled 'a | RejectedWith string

text \<open>
  The variables of the closure of \<open>client\<close>, and the places where its asynchronous
  functions are suspended:
  \<^item> \<open>db\<close>, the keys and values of the store, and whether it is open;
  \<^item> \<open>put_handlers\<close>, how many times \<open>onTransaction\<close> is registered for the store's \<open>put\<close>
    event;
  \<^item> \<open>listeners\<close>, the info listeners attached to the emitter, each the closure of one
    call of \<open>onTransaction\<close> (numbered by \<open>closures\<close>) with its key, and \<open>infoListeners\<close>,
    the array they are pushed on;
  \<^item> \<open>preparing\<close>: calls of \<open>transaction\<close> waiting for the replies to commands 1 and 2, with
    \<open>params.recipientIdentity\<close> and \<open>params.energy\<close>;
  \<^item> \<open>putting\<close>: transfers (digest, message, signature) whose \<open>put\<close> has not completed;
  \<^item> \<open>querying\<close>: info listeners waiting for the reply to their command 4;
  \<^item> \<open>deleting\<close>: info listeners (with the tick and epoch of the reply) whose \<open>del\<close> has
    not completed.
\<close>

record client =
  identity :: string
  db :: "(string \<times> string) list"
  db_open :: bool
  put_handlers :: nat
  listeners :: "(nat \<times> string) list"
  infoListeners :: "(nat \<times> string) list"
  closures :: nat
  emittersByEnvironment :: "string list"
  preparing :: "(jsvalue \<times> int) list"
  putting :: "(string \<times> string \<times> string) list"
  querying :: "(nat \<times> string) list"
  deleting :: "(nat \<times> string \<times> jsvalue \<times> jsvalue) list"
  trace :: "client_effect list"

definition traced :: "client_effect list \<Rightarrow> client \<Rightarrow> client" where
  "traced evs c = c\<lparr>trace := trace c @ evs\<rparr>"

definition remove_nth :: "nat \<Rightarrow> 'a list \<Rightarrow> 'a list" where
  "remove_nth n xs = take n xs @ drop (Suc n) xs"

text \<open>\<open>onTransaction(key)\<close>: a new info listener for the key is attached and pushed.\<close>

definition onTransaction :: "string \<Rightarrow> client \<Rightarrow> client" where
  "onTransaction key c =
     c\<lparr>listeners := listeners c @ [(closures c, key)],
       infoListeners := infoListeners c @ [(closures c, key)],
       closures := closures c + 1\<rparr>"

text \<open>
  \<open>client(...)\<close> on a store holding \<open>entries\<close>: \<open>onTransaction\<close> is registered for \<open>put\<close>, and
  called for every key the store streams.
\<close>

definition client_new :: "string \<Rightarrow> (string \<times> string) list \<Rightarrow> client" where
  "client_new ident entries =
     fold onTransaction (map fst entries)
       \<lparr>identity = ident, db = entries, db_open = True, put_handlers = 1, listeners = [],
        infoListeners = [], closures = 0, emittersByEnvironment = [], preparing = [],
        putting = [], querying = [], deleting = [], trace = []\<rparr>"

text \<open>
  \<open>transaction(params)\<close> up to its first wait: command 1 is sent, and command 2 when a
  recipient is given.
\<close>

definition transaction :: "jsvalue \<Rightarrow> int \<Rightarrow> client \<Rightarrow> client" where
  "transaction recipientIdentity energy c =
     traced
       (SendCommand 1 [(''identity'', String (identity c))] #
        (if truthy recipientIdentity then [SendCommand 2 [(''identity'', String (identity c))]] else []))
       (c\<lparr>preparing := preparing c @ [(recipientIdentity, energy)]\<rparr>)"

text \<open>\<open>bigInt(v)\<close>; it throws (\<open>None\<close>) unless \<open>v\<close> is a number or the text of an integer.\<close>

fun bigInt :: "env \<Rightarrow> jsvalue \<Rightarrow> int option" where
  "bigInt e (Number n) = Some n"
| "bigInt e (String s) = StringToNumber e s"
| "bigInt e v = None"

text \<open>
  The \<open>n\<close>-th waiting call of \<open>transaction\<close> goes on: the replies to its commands are there
  (\<open>energy_reply\<close> is looked at only when a recipient was given), and so is what the
  transfer builder of \<open>transaction.js\<close> made of them. The call fails on a rejected reply,
  on insufficient energy and on a failed build; otherwise it asks the store to put the
  transfer.
\<close>

definition prepared ::
  "env \<Rightarrow> nat \<Rightarrow> jsobject outcome \<Rightarrow> jsobject outcome \<Rightarrow> (string \<times> string \<times> string) outcome \<Rightarrow>
   client \<Rightarrow> client" where
  "prepared e n nonce_reply energy_reply built c =
     (if n < length (preparing c) then
        (let (recipientIdentity, wanted) = preparing c ! n;
             c1 = c\<lparr>preparing := remove_nth n (preparing c)\<rparr>;
             put = (case built of
                      RejectedWith r \<Rightarrow> traced [Failed (BuildFailed r)] c1
                    | Fulfilled transfer \<Rightarrow> c1\<lparr>putting := putting c1 @ [transfer]\<rparr>)
         in case nonce_reply of
              RejectedWith r \<Rightarrow> traced [Failed (QueryRejected r)] c1
            | Fulfilled nonce \<Rightarrow>
                (case (if truthy recipientIdentity then energy_reply
                       else Fulfilled [(''energy'', Undefined)]) of
                   RejectedWith r \<Rightarrow> traced [Failed (QueryRejected r)] c1
                 | Fulfilled reply \<Rightarrow>
                     if get reply ''energy'' \<noteq> Undefined then
                       (case bigInt e (get reply ''energy'') of
                          None \<Rightarrow> traced [Failed InvalidInteger] c1
                        | Some energy \<Rightarrow>
                            if energy < wanted then traced [Failed InsufficientEnergy] c1 else put)
                     else put))
      else c)"

text \<open>
  The \<open>n\<close>-th \<open>put\<close> completes. When it succeeded the store holds the entry, the store's
  \<open>put\<close> event has called \<open>onTransaction\<close>, and the callback of \<open>transaction\<close> submits
  command 3.
\<close>

definition put_done :: "env \<Rightarrow> nat \<Rightarrow> bool \<Rightarrow> client \<Rightarrow> client" where
  "put_done e n ok c =
     (if n < length (putting c) then
        (let (messageDigest, message, signature) = putting c ! n;
             payload = [(''message'', String message), (''signature'', String signature)];
             c1 = c\<lparr>putting := remove_nth n (putting c)\<rparr>
         in if ok \<and> db_open c then
              traced [SendCommand 3 payload]
                ((onTransaction messageDigest ^^ put_handlers c1)
                   (traced [Put messageDigest (JSON_stringify e payload)]
                      (c1\<lparr>db := assign (db c1) messageDigest (JSON_stringify e payload)\<rparr>)))
            else traced [Failed StoreError] c1)
      else c)"

text \<open>
  An \<open>info\<close> event reaches the client: every attached listener runs up to its wait, which
  is the status query for its key when \<open>syncStatus > 2\<close>.
\<close>

definition info_event :: "nat \<Rightarrow> client \<Rightarrow> client" where
  "info_event syncStatus c =
     (if syncStatus > 2 then
        traced (map (\<lambda>l. SendCommand 4 [(''messageDigest'', String (snd l))]) (listeners c))
          (c\<lparr>querying := querying c @ listeners c\<rparr>)
      else c)"

text \<open>The \<open>n\<close>-th waiting listener gets the outcome of its status query.\<close>

definition status_reply :: "nat \<Rightarrow> jsobject outcome \<Rightarrow> client \<Rightarrow> client" where
  "status_reply n response c =
     (if n < length (querying c) then
        (let (l, key) = querying c ! n;
             c1 = c\<lparr>querying := remove_nth n (querying c)\<rparr>
         in case response of
              RejectedWith r \<Rightarrow> c1
            | Fulfilled reply \<Rightarrow>
                if get reply ''inclusionState'' = Boolean True then
                  c1\<lparr>deleting := deleting c1 @ [(l, key, get reply ''tick'', get reply ''epoch'')]\<rparr>
                else if truthy (get reply ''reason'') then
                  traced [Rejection key (get reply ''reason'')] c1
                else c1)
      else c)"

text \<open>
  The \<open>n\<close>-th \<open>del\<close> completes. When it succeeded its callback detaches the listener and
  emits \<open>inclusion\<close>.
\<close>

definition del_done :: "nat \<Rightarrow> bool \<Rightarrow> client \<Rightarrow> client" where
  "del_done n ok c =
     (if n < length (deleting c) then
        (let (l, key, tick, epoch) = deleting c ! n;
             c1 = c\<lparr>deleting := remove_nth n (deleting c)\<rparr>
         in if ok \<and> db_open c then
              traced [Del key, Inclusion key tick epoch]
                (c1\<lparr>db := delete key (db c1), listeners := filter (\<lambda>x. fst x \<noteq> l) (listeners c1)\<rparr>)
            else c1)
      else c)"

text \<open>
  \<open>addEnvironmentListener\<close> and \<open>removeEnvironmentListener\<close>: what \<open>sendCommand\<close> returns is a
  promise, on which \<open>addListener\<close> and \<open>removeListener\<close> are not functions, so both stop
  after the command is sent (and the first after the map is set).
\<close>

definition addEnvironmentListener :: "string \<Rightarrow> client \<Rightarrow> client" where
  "addEnvironmentListener environment c =
     (if environment \<in> set (emittersByEnvironment c) then c
      else traced [SendCommand 5 [(''environmentDigest'', String environment)]]
             (c\<lparr>emittersByEnvironment := emittersByEnvironment c @ [environment]\<rparr>))"

definition removeEnvironmentListener :: "string \<Rightarrow> client \<Rightarrow> client" where
  "removeEnvironmentListener environment c =
     (if environment \<in> set (emittersByEnvironment c)
      then traced [SendCommand 6 [(''environmentDigest'', String environment)]] c
      else c)"

text \<open>\<open>terminate({ closeConnection })\<close>\<close>

definition terminate :: "bool \<Rightarrow> client \<Rightarrow> client" where
  "terminate closeConnection c =
     traced ((if closeConnection then [ConnectionClose] else []) @ [DbClose])
       (c\<lparr>db_open := False,
          listeners := filter (\<lambda>x. x \<notin> set (infoListeners c)) (listeners c)\<rparr>)"

text \<open>\<open>launch()\<close>\<close>

definition launch :: "client \<Rightarrow> client" where
  "launch c =
     fold onTransaction (map fst (db c))
       (traced [ConnectionOpen, DbOpen] (c\<lparr>db_open := True, put_handlers := put_handlers c + 1\<rparr>))"

text \<open>
  The process ends and \<open>client\<close> is called again on the same store: nothing but the store
  survives (the trace goes on, being the history of the client and not a part of it).
\<close>

definition restart :: "client \<Rightarrow> client" where
  "restart c = (client_new (identity c) (db c))\<lparr>trace := trace c\<rparr>"

datatype client_action =
    Transaction jsvalue int
  | Prepared nat "jsobject outcome" "jsobject outcome" "(string \<times> string \<times> string) outcome"
  | PutDone nat bool
  | InfoEvent nat
  | StatusReply nat "jsobject outcome"
  | DelDone nat bool
  | AddEnvironmentListener string
  | RemoveEnvironmentListener string
  | Terminate bool
  | Launch
  | Restart

fun client_step :: "env \<Rightarrow> client_action \<Rightarrow> client \<Rightarrow> client" where
  "client_step e (Transaction recipientIdentity energy) c = transaction recipientIdentity energy c"
| "client_step e (Prepared n nonce_reply energy_reply built) c = prepared e n nonce_reply energy_reply built c"
| "client_step e (PutDone n ok) c = put_done e n ok c"
| "client_step e (InfoEvent syncStatus) c = info_event syncStatus c"
| "client_step e (StatusReply n response) c = status_reply n response c"
| "client_step e (DelDone n ok) c = del_done n ok c"
| "client_step e (AddEnvironmentListener environment) c = addEnvironmentListener environment c"
| "client_step e (RemoveEnvironmentListener environment) c = removeEnvironmentListener environment c"
| "client_step e (Terminate closeConnection) c = terminate closeConnection c"
| "client_step e Launch c = launch c"
| "client_step e Restart c = restart c"

text \<open>A history of the client: it starts on an empty store.\<close>

definition client_run :: "env \<Rightarrow> string \<Rightarrow> client_action list \<Rightarrow> client" where
  "client_run e ident steps = fold (client_step e) steps (client_new ident [])"

text \<open>
  The order the outbox keeps: a submission (command 3) comes right after the completed
  put of its message and signature, and an inclusion event comes right after the
  completed delete of its digest, which some earlier put had stored.
\<close>

definition write_ahead :: "env \<Rightarrow> client_effect list \<Rightarrow> bool" where
  "write_ahead e t \<longleftrightarrow>
     (\<forall>j<length t.
        (\<forall>payload. t ! j = SendCommand 3 payload \<longrightarrow>
           0 < j \<and> (\<exists>digest. t ! (j - 1) = Put digest (JSON_stringify e payload))) \<and>
        (\<forall>digest tick epoch. t ! j = Inclusion digest tick epoch \<longrightarrow>
           0 < j \<and> t ! (j - 1) = Del digest \<and> (\<exists>i<j - 1. \<exists>v. t ! i = Put digest v)))"

text \<open>A put of the key has completed.\<close>

definition stored :: "client_effect list \<Rightarrow> string \<Rightarrow> bool" where
  "stored t key \<longleftrightarrow> (\<exists>v. Put key v \<in> set t)"

text \<open>
  What holds of every state of the client: its trace is in that order, and every key it
  holds (of an entry of the store, of a listener, of a suspended listener) was put.
\<close>

definition client_inv :: "env \<Rightarrow> client \<Rightarrow> bool" where
  "client_inv e c \<longleftrightarrow>
     write_ahead e (trace c) \<and>
     (\<forall>x\<in>set (db c). stored (trace c) (fst x)) \<and>
     (\<forall>x\<in>set (listeners c). stored (trace c) (snd x)) \<and>
     (\<forall>x\<in>set (querying c). stored (trace c) (snd x)) \<and>
     (\<forall>x\<in>set (deleting c). stored (trace c) (fst (snd x)))"

section \<open>Example fixtures\<close>

text \<open>
  A concrete environment for the closed examples below: \<open>JSON.stringify\<close> and
  \<open>JSON.parse\<close> on the flat objects and the frames the examples use, a base64 decoder
  and a key decoder that are not looked at, and a signature check that accepts (the
  examples are about frames whose signature verified).
\<close>

definition quoted :: "string \<Rightarrow> string" where
  "quoted s = [CHR 0x22] @ s @ [CHR 0x22]"

fun render :: "jsvalue \<Rightarrow> string" where
  "render (String s) = quoted s"
| "render v = ToString v"

fun members :: "jsobject \<Rightarrow> string list" where
  "members [] = []"
| "members ((k, Undefined) # kvs) = members kvs"
| "members ((k, v) # kvs) = (quoted k @ '':'' @ render v) # members kvs"

fun separated :: "string list \<Rightarrow> string" where
  "separated [] = []"
| "separated [m] = m"
| "separated (m # ms) = m @ '','' @ separated ms"

definition stringify :: "jsobject \<Rightarrow> string" where
  "stringify obj = ''{'' @ separated (members obj) @ ''}''"

definition example_frames :: "jsobject list" where
  "example_frames =
     [[(''command'', Number 0), (''epoch'', Number 10), (''tick'', Number 100), (''signature'', String ''c2ln'')],
      [(''command'', Number 0), (''epoch'', Number 10), (''tick'', Number 101), (''signature'', String ''c2ln'')],
      [(''command'', Number 1), (''identity'', String ''A''), (''identityNonce'', Number 7)],
      [(''command'', Number 1), (''identity'', String ''A''), (''identityNonce'', Number 8)],
      [(''command'', Number 4), (''messageDigest'', String ''D1''), (''inclusionState'', Boolean True),
       (''tick'', Number 100), (''epoch'', Number 10)]]"

definition example_env :: env where
  "example_env =
     \<lparr>JSON_parse = map_of (map (\<lambda>obj. (stringify obj, obj)) example_frames),
      JSON_stringify = stringify,
      StringToNumber = (\<lambda>s. None),
      base64 = (\<lambda>s. []),
      shiftedHexToBytes = (\<lambda>s. []),
      SchnorrQ_Verify = (\<lambda>publicKey message n signature. 1)\<rparr>"

definition example_config :: config where
  "example_config =
     \<lparr>computors = [''wss://AA'', ''wss://AB'', ''wss://AC''],
      synchronizationInterval = 60000,
      adminPublicKey = ''97CC'',
      reconnectTimeoutDuration = 100\<rparr>"

text \<open>A connection created at time 1000 whose three sockets have opened.\<close>

definition connected :: connection where
  "connected =
     (case createConnection example_config 1000 of
        Inl err \<Rightarrow> initial
      | Inr c \<Rightarrow> socket_onopen 2 (socket_onopen 1 (socket_onopen 0 c)))"

text \<open>The connection after its first socket closed unexpectedly at time 2000.\<close>

definition disconnected :: connection where
  "disconnected = socket_onclose example_config 2000 0 connected"

text \<open>
  A connection created at time 1000 whose second socket failed to connect: the first
  socket opened, the second closed at time 1500 and was opened again by its reconnect
  timer (handle 1, due at 1600), and then the third socket opened. Every \<open>open\<close> promise
  of the three sockets the connection was created with is resolved at this point (that of
  the second by its close), so the callback of a \<open>sendCommand\<close> called right after
  \<open>createConnection\<close> runs now, while the new second socket is still connecting.
\<close>

definition reopening :: connection where
  "reopening =
     (case createConnection example_config 1000 of
        Inl err \<Rightarrow> initial
      | Inr c \<Rightarrow>
          run example_env example_config
            [SocketOpened 0, SocketClosed 1500 1, Fired 1, SocketOpened 2] c)"

text \<open>
  A connection created at time 1000 and opened once more at time 2000 (\<open>launch\<close> of the
  client calls \<open>connection.open()\<close> on the connection that \<open>createConnection\<close> opened
  already), its three new sockets open.
\<close>

definition launched :: connection where
  "launched =
     (case createConnection example_config 1000 of
        Inl err \<Rightarrow> initial
      | Inr c \<Rightarrow>
          (case open example_config 2000 None None c of
             Inl err \<Rightarrow> initial
           | Inr c' \<Rightarrow> socket_onopen 2 (socket_onopen 1 (socket_onopen 0 c'))))"

text \<open>A transfer submission, and the two replies to a nonce query that disagree.\<close>

definition transfer :: jsobject where
  "transfer = [(''message'', String ''bXNn''), (''signature'', String ''c2ln'')]"

definition nonce7 :: string where
  "nonce7 = stringify [(''command'', Number 1), (''identity'', String ''A''), (''identityNonce'', Number 7)]"

definition nonce8 :: string where
  "nonce8 = stringify [(''command'', Number 1), (''identity'', String ''A''), (''identityNonce'', Number 8)]"

text \<open>A reply to a status query that names its transfer in \<open>messageDigest\<close>.\<close>

definition status1 :: string where
  "status1 = stringify [(''command'', Number 4), (''messageDigest'', String ''D1''), (''inclusionState'', Boolean True),
       (''tick'', Number 100), (''epoch'', Number 10)]"

text \<open>Two signed info frames, for tick 100 and tick 101 of epoch 10.\<close>

definition tick100 :: string where
  "tick100 = stringify [(''command'', Number 0), (''epoch'', Number 10), (''tick'', Number 100), (''signature'', String ''c2ln'')]"

definition tick101 :: string where
  "tick101 = stringify [(''command'', Number 0), (''epoch'', Number 10), (''tick'', Number 101), (''signature'', String ''c2ln'')]"

text \<open>
  A transfer from its submission to its inclusion: the call, the replies and the built
  transfer, the completed put, a full synchronization, the reply to the status query, and
  the completed delete.
\<close>

definition included :: "client_action list" where
  "included =
     [Transaction (String ''B'') 5,
      Prepared 0 (Fulfilled [(''identity'', String ''A''), (''identityNonce'', Number 7)])
        (Fulfilled [(''identity'', String ''A''), (''energy'', Number 9)])
        (Fulfilled (''D1'', ''bXNn'', ''c2ln'')),
      PutDone 0 True,
      InfoEvent 3,
      StatusReply 0 (Fulfilled [(''command'', Number 4), (''messageDigest'', String ''D1''),
        (''inclusionState'', Boolean True), (''tick'', Number 100), (''epoch'', Number 10)]),
      DelDone 0 True]"

section \<open>The quorum comparator on an array with holes\<close>

lemma map_of_assign: "map_of (assign kvs k v) k' = (if k' = k then Some v else map_of kvs k')"
  by (induction kvs) auto

lemma fst_set_assign: "fst ` set (assign kvs k v) = insert k (fst ` set kvs)"
proof (induction kvs)
  case Nil
  show ?case by simp
next
  case (Cons kv kvs)
  obtain k' v' where kv: "kv = (k', v')" by (cases kv)
  show ?case
  proof (cases "k' = k")
    case True
    with kv show ?thesis by simp
  next
    case False
    with kv Cons show ?thesis by (simp add: insert_commute)
  qed
qed

lemma distinct_assign: "distinct (map fst kvs) \<Longrightarrow> distinct (map fst (assign kvs k v))"
  by (induction kvs) (auto simp: fst_set_assign)

lemma clean_value: "clean cs \<Longrightarrow> map_of cs k = Some v \<Longrightarrow> \<exists>n. v = Count n \<and> 0 < n"
  unfolding clean_def by blast

lemma clean_assign:
  assumes "clean cs" and "0 < n"
  shows "clean (assign cs k (Count n))"
  unfolding clean_def
proof (intro conjI allI impI)
  from assms(1) show "distinct (map fst (assign cs k (Count n)))"
    by (simp add: clean_def distinct_assign)
next
  fix k' v assume "map_of (assign cs k (Count n)) k' = Some v"
  then have "v = Count n \<or> map_of cs k' = Some v"
    by (simp add: map_of_assign split: if_splits)
  with assms clean_value [OF assms(1), of k' v] show "\<exists>n. v = Count n \<and> 0 < n" by blast
qed

lemma count_up_clean:
  assumes "clean cs" and "k \<notin> set object_prototype_names"
  shows "clean (count_up cs k) \<and>
         (\<forall>k'. tally (count_up cs k) k' = tally cs k' + (if k' = k then 1 else 0))"
proof -
  have proto: "k \<noteq> ''__proto__''" using assms(2) by (auto simp: object_prototype_names_def)
  show ?thesis
  proof (cases "map_of cs k")
    case None
    with proto assms(2) have "count_up cs k = assign cs k (Count 1)"
      by (simp add: count_up_def)
    with None clean_assign [OF assms(1), of 1 k] show ?thesis
      by (simp add: tally_def map_of_assign)
  next
    case (Some v)
    with clean_value [OF assms(1) Some] obtain n where v: "v = Count n" "0 < n" by blast
    with Some have "count_up cs k = assign cs k (Count (n + 1))"
      by (simp add: count_up_def)
    with Some v clean_assign [OF assms(1), of "n + 1" k] show ?thesis
      by (simp add: tally_def map_of_assign)
  qed
qed

lemma count_all_clean:
  assumes "clean cs" and "\<forall>r\<in>set rs. ToString (slot_value r) \<notin> set object_prototype_names"
  shows "clean (count_all cs rs) \<and>
         (\<forall>k. tally (count_all cs rs) k = tally cs k + count_list (map (\<lambda>r. ToString (slot_value r)) rs) k)"
  using assms
proof (induction rs arbitrary: cs)
  case Nil
  then show ?case by simp
next
  case (Cons r rs)
  from Cons.prems have k: "ToString (slot_value r) \<notin> set object_prototype_names" by simp
  from count_up_clean [OF Cons.prems(1) k] have
    c: "clean (count_up cs (ToString (slot_value r)))" and
    t: "\<And>k'. tally (count_up cs (ToString (slot_value r))) k' =
          tally cs k' + (if k' = ToString (slot_value r) then 1 else 0)"
    by simp_all
  from Cons.prems have "\<forall>r\<in>set rs. ToString (slot_value r) \<notin> set object_prototype_names" by simp
  from Cons.IH [OF c this] t show ?case by auto
qed

lemma largest_fold: "largest a vs = fold max (numbers vs) a"
  by (induction a vs rule: largest.induct) (simp_all add: max_def)

lemma fold_max_Max: "fold max xs (a::nat) = Max (insert a (set xs))"
proof -
  have "fold max xs a = Max (set (a # xs))" by (simp only: Max.set_eq_fold)
  then show ?thesis by simp
qed

lemma numbers_clean:
  assumes "clean cs"
  shows "set (numbers (map snd cs)) = tally cs ` fst ` set cs"
proof -
  from assms have d: "distinct (map fst cs)" by (simp add: clean_def)
  have n: "set (numbers vs) = {n. Count n \<in> set vs}" for vs
    by (induction vs rule: numbers.induct) auto
  have "{n. Count n \<in> snd ` set cs} = tally cs ` fst ` set cs"
  proof (intro set_eqI iffI)
    fix n assume "n \<in> {n. Count n \<in> snd ` set cs}"
    then obtain k where k: "(k, Count n) \<in> set cs" by force
    with d have "map_of cs k = Some (Count n)" by simp
    then have "tally cs k = n" by (simp add: tally_def)
    with k show "n \<in> tally cs ` fst ` set cs" by force
  next
    fix n assume "n \<in> tally cs ` fst ` set cs"
    then obtain k v where kv: "(k, v) \<in> set cs" "n = tally cs k" by force
    with d have m: "map_of cs k = Some v" by simp
    from clean_value [OF assms m] obtain j where j: "v = Count j" by blast
    with m kv have "n = j" unfolding tally_def by simp
    with kv j show "n \<in> {n. Count n \<in> snd ` set cs}" by force
  qed
  with n [of "map snd cs"] show ?thesis by simp
qed

lemma tally_dom: "clean cs \<Longrightarrow> (k \<in> fst ` set cs) = (0 < tally cs k)"
proof -
  assume c: "clean cs"
  show ?thesis
  proof (cases "map_of cs k")
    case None
    then have "k \<notin> fst ` set cs" by (simp add: map_of_eq_None_iff)
    moreover from None have "tally cs k = 0" unfolding tally_def by simp
    ultimately show ?thesis by simp
  next
    case (Some v)
    from clean_value [OF c Some] obtain n where n: "v = Count n" "0 < n" by blast
    from Some have "(k, v) \<in> set cs" by (rule map_of_SomeD)
    then have "k \<in> fst ` set cs" by force
    moreover from Some n have "0 < tally cs k" unfolding tally_def by simp
    ultimately show ?thesis by simp
  qed
qed

text \<open>
  Counting every slot under its key (a hole under \<open>undefined\<close>), \<open>compareResponses\<close> returns
  the largest number of slots with one key, as long as no key is a name that
  \<open>Object.prototype\<close> defines (the text of a frame, being JSON, never is).
\<close>

lemma compareResponses_mode:
  assumes "\<forall>r\<in>set rs. ToString (slot_value r) \<notin> set object_prototype_names"
  shows "compareResponses rs =
         fold max (map (count_list (map (\<lambda>r. ToString (slot_value r)) rs)) (map (\<lambda>r. ToString (slot_value r)) rs)) 0"
proof -
  let ?keys = "map (\<lambda>r. ToString (slot_value r)) rs"
  let ?cs = "count_all [] rs"
  have "clean []" by (simp add: clean_def)
  from count_all_clean [OF this assms] have c: "clean ?cs"
    and t: "\<And>k. tally ?cs k = count_list ?keys k"
    by (simp_all add: tally_def)
  have "fst ` set ?cs = set ?keys"
  proof (intro set_eqI)
    fix k
    have "(k \<in> fst ` set ?cs) = (0 < count_list ?keys k)"
      using tally_dom [OF c, of k] t by simp
    moreover have "(0 < count_list ?keys k) = (k \<in> set ?keys)"
      using count_list_0_iff [of ?keys k] by auto
    ultimately show "(k \<in> fst ` set ?cs) = (k \<in> set ?keys)" by simp
  qed
  then have "tally ?cs ` fst ` set ?cs = count_list ?keys ` set ?keys"
    using t by auto
  with numbers_clean [OF c] have "set (numbers (map snd ?cs)) = set (map (count_list ?keys) ?keys)"
    by (simp add: image_image)
  then show ?thesis
    by (simp only: compareResponses_def largest_fold fold_max_Max)
qed

lemma present_all: "\<forall>r\<in>set rs. r \<noteq> None \<Longrightarrow> map (\<lambda>r. ToString (slot_value r)) rs = present rs"
  by (induction rs rule: present.induct) (simp_all add: slot_value_def)

text \<open>On an array without holes that is the quorum size of the specification.\<close>

lemma compareResponses_without_holes:
  assumes "\<forall>r\<in>set rs. r \<noteq> None"
    and "\<forall>d\<in>set (present rs). d \<notin> set object_prototype_names"
  shows "compareResponses rs = quorum_size rs"
proof -
  from assms have "\<forall>r\<in>set rs. ToString (slot_value r) \<notin> set object_prototype_names"
    using present_all [OF assms(1)] by (metis (no_types, lifting) imageI list.set_map)
  from compareResponses_mode [OF this] present_all [OF assms(1)] show ?thesis
    by (simp add: quorum_size_def)
qed

text \<open>
  C1. \<open>compareResponses\<close> is meant to return the multiplicity of the mode of the payloads
  that are present, ignoring absent slots. The first reply of a round arriving on the
  third socket leaves two holes in the array; the loop counts both under the key
  \<open>undefined\<close>, and the result is 2 where one payload is present.
\<close>

theorem compareResponses_counts_holes:
  "array_set [] 2 ''A'' = [None, None, Some ''A''] \<and>
   quorum_size [None, None, Some ''A''] = 1 \<and>
   compareResponses [None, None, Some ''A''] = 2"
  by (simp add: array_set_def quorum_size_def compareResponses_def count_up_def slot_value_def
      object_prototype_names_def numeral_2_eq_2)

section \<open>The message handed to the signature check\<close>

lemma length_big_endian: "length (big_endian n v) = n"
  by (simp add: big_endian_def)

lemma info_buffer_length: "\<exists>buffer. info_buffer e epoch tick = Some buffer \<and> length buffer = 6"
  by (simp add: info_buffer_def setUint32_def setUint16_def store_bytes_def length_big_endian
      ArrayBuffer_new_def EPOCH_LENGTH_def TICK_LENGTH_def EPOCH_OFFSET_def TICK_OFFSET_def)

lemma verified_message_empty: "verified_message e epoch tick = Some []"
  using info_buffer_length [of e epoch tick] by (auto simp: verified_message_def)

text \<open>
  Whatever the frame says, the check is made on the empty message with length 0: the
  six bytes written through the DataView do not reach \<open>verify\<close>.
\<close>

lemma info_verified_empty_message:
  "info_verified e key parsedMessage =
     (case Buffer_from e (get parsedMessage ''signature'') of
        None \<Rightarrow> None
      | Some signature \<Rightarrow> Some (SchnorrQ_Verify e (shiftedHexToBytes e key) [] 0 signature = 1))"
  by (simp add: info_verified_def verified_message_empty verify_def split: option.splits)

text \<open>
  C2. The message verified for a command-0 frame is meant to be the 6-byte buffer, epoch
  big-endian at offset 0 and tick big-endian at offset 4. For epoch 10 and tick 100 the
  buffer is built as \<open>00 00 00 0A 00 64\<close>, but \<open>Uint8Array.from(buffer)\<close> of an ArrayBuffer
  is empty, so \<open>SchnorrQ_Verify\<close> is asked about the empty message, and the sync state is
  updated when the signature is valid for that.
\<close>

theorem info_signature_checked_on_empty_message:
  "info_buffer e (Number 10) (Number 100) = Some [0, 0, 0, 10, 0, 100] \<and>
   verified_message e (Number 10) (Number 100) = Some [] \<and>
   info_verified e key
     [(''command'', Number 0), (''epoch'', Number 10), (''tick'', Number 100), (''signature'', String s)] =
     Some (SchnorrQ_Verify e (shiftedHexToBytes e key) [] 0 (base64 e s) = 1)"
proof -
  have "info_buffer e (Number 10) (Number 100) = Some [0, 0, 0, 10, 0, 100]"
    by (simp add: info_buffer_def setUint32_def setUint16_def store_bytes_def big_endian_def
        ToUint_def ArrayBuffer_new_def EPOCH_LENGTH_def TICK_LENGTH_def EPOCH_OFFSET_def
        TICK_OFFSET_def upt_rec)
  then show ?thesis
    by (simp add: info_verified_empty_message verified_message_empty get_def)
qed

section \<open>The correlation key\<close>

text \<open>
  C5. The key of a request is meant to tell the requests of one command apart by the
  identity, the hash or the digest they carry, so that a status query (command 4) for a
  transfer is settled by the replies about that transfer and by no others. The code reads
  \<open>payload.identity\<close> and \<open>payload.hash\<close> only, and the status queries of the client name
  their transfer in \<open>messageDigest\<close>: the key of every status query is \<open>4undefined\<close>,
  whatever the digest. So a query for D2 made while the query for D1 is pending sends
  nothing and is given the promise of the query for D1, which the replies about D1
  resolve; and a reply that names its transfer in \<open>hash\<close> has the key \<open>4D1\<close>, under which
  nothing is pending.
\<close>

theorem status_queries_share_one_key:
  "request_key 4 [(''messageDigest'', String digest)] = ''4undefined'' \<and>
   request_key 4 [(''digest'', String digest)] = ''4undefined'' \<and>
   fst (sendCommand example_env 4 [(''messageDigest'', String ''D1'')] connected) = Some 0 \<and>
   sendCommand example_env 4 [(''messageDigest'', String ''D2'')]
     (snd (sendCommand example_env 4 [(''messageDigest'', String ''D1'')] connected)) =
     (Some 0, snd (sendCommand example_env 4 [(''messageDigest'', String ''D1'')] connected)) \<and>
   effects (run example_env example_config
      [Command 4 [(''messageDigest'', String ''D1'')], Command 4 [(''messageDigest'', String ''D2'')],
       Message 3000 0 status1, Message 3001 1 status1] connected) =
     effects connected @
     [SocketSend 0 (stringify (spread 4 [(''messageDigest'', String ''D1'')])),
      SocketSend 1 (stringify (spread 4 [(''messageDigest'', String ''D1'')])),
      SocketSend 2 (stringify (spread 4 [(''messageDigest'', String ''D1'')])),
      Resolve 0 [(''command'', Number 4), (''messageDigest'', String ''D1''), (''inclusionState'', Boolean True),
        (''tick'', Number 100), (''epoch'', Number 10)]] \<and>
   reply_key [(''command'', Number 4), (''hash'', String ''D1''), (''inclusionState'', Boolean True)] = Some ''4D1'' \<and>
   map_of (responsesByKey (snd (sendCommand example_env 4 [(''messageDigest'', String ''D1'')] connected))) ''4D1'' = None"
proof -
  have four: "Number_toString 4 = ''4''"
    by code_simp
  have 1: "request_key 4 [(''messageDigest'', String digest)] = ''4undefined''"
    by (simp add: request_key_def four get_def js_or_def)
  have 2: "request_key 4 [(''digest'', String digest)] = ''4undefined''"
    by (simp add: request_key_def four get_def js_or_def)
  have 3: "fst (sendCommand example_env 4 [(''messageDigest'', String ''D1'')] connected) = Some 0"
    by code_simp
  have 4: "sendCommand example_env 4 [(''messageDigest'', String ''D2'')]
     (snd (sendCommand example_env 4 [(''messageDigest'', String ''D1'')] connected)) =
     (Some 0, snd (sendCommand example_env 4 [(''messageDigest'', String ''D1'')] connected))"
    by code_simp
  have 5: "effects (run example_env example_config
      [Command 4 [(''messageDigest'', String ''D1'')], Command 4 [(''messageDigest'', String ''D2'')],
       Message 3000 0 status1, Message 3001 1 status1] connected) =
     effects connected @
     [SocketSend 0 (stringify (spread 4 [(''messageDigest'', String ''D1'')])),
      SocketSend 1 (stringify (spread 4 [(''messageDigest'', String ''D1'')])),
      SocketSend 2 (stringify (spread 4 [(''messageDigest'', String ''D1'')])),
      Resolve 0 [(''command'', Number 4), (''messageDigest'', String ''D1''), (''inclusionState'', Boolean True),
        (''tick'', Number 100), (''epoch'', Number 10)]]"
    by code_simp
  have 6: "reply_key [(''command'', Number 4), (''hash'', String ''D1''), (''inclusionState'', Boolean True)] = Some ''4D1''"
    by code_simp
  have 7: "map_of (responsesByKey (snd (sendCommand example_env 4 [(''messageDigest'', String ''D1'')] connected))) ''4D1'' = None"
    by code_simp
  from 1 2 3 4 5 6 7 show ?thesis by blast
qed

section \<open>Settling a pending request\<close>

text \<open>
  C3. A pending request is meant to be rejected only when all three slots hold replies
  and no two agree, and resolved when two slots hold the same payload. The code tests the
  length of the array: with the first reply on the second socket and a different one on
  the third, the array has length 3 with a hole at index 0, and the request is rejected
  though the first peer has not answered. And a first reply arriving on the third socket
  resolves the request at once, the two holes counting as two equal payloads.
\<close>

theorem rejected_with_an_empty_slot:
  "effects (run example_env example_config
      [Command 1 [(''identity'', String ''A'')], Message 3000 1 nonce7, Message 3001 2 nonce8] connected) =
     effects connected @
     [SocketSend 0 (stringify (spread 1 [(''identity'', String ''A'')])),
      SocketSend 1 (stringify (spread 1 [(''identity'', String ''A'')])),
      SocketSend 2 (stringify (spread 1 [(''identity'', String ''A'')])),
      Reject 0 ''Invalid responses.''] \<and>
   effects (run example_env example_config
      [Command 1 [(''identity'', String ''A'')], Message 3000 2 nonce7] connected) =
     effects connected @
     [SocketSend 0 (stringify (spread 1 [(''identity'', String ''A'')])),
      SocketSend 1 (stringify (spread 1 [(''identity'', String ''A'')])),
      SocketSend 2 (stringify (spread 1 [(''identity'', String ''A'')])),
      Resolve 0 [(''command'', Number 1), (''identity'', String ''A''), (''identityNonce'', Number 7)]]"
  by code_simp

section \<open>The sync level after a full synchronization\<close>

lemma parse100: "JSON_parse example_env tick100 = Some [(''command'', Number 0), (''epoch'', Number 10), (''tick'', Number 100), (''signature'', String ''c2ln'')]" 
  by code_simp

lemma parse101: "JSON_parse example_env tick101 = Some [(''command'', Number 0), (''epoch'', Number 10), (''tick'', Number 101), (''signature'', String ''c2ln'')]" 
  by code_simp

lemma example_verified:
  "info_verified example_env key ((''command'', Number 0) # (''epoch'', epoch) # (''tick'', tick) # [(''signature'', String s)]) = Some True"
  by (simp add: info_verified_empty_message get_def example_env_def)

lemma onmessage100:
  "onmessage example_env example_config now i tick100 c = info_update now i tick100 (Number 10) (Number 100) c"
  by (simp add: onmessage_def parse100 example_verified get_def)

lemma onmessage101:
  "onmessage example_env example_config now i tick101 c = info_update now i tick101 (Number 10) (Number 101) c"
  by (simp add: onmessage_def parse101 example_verified get_def)

text \<open>
  C4. After the emission with \<open>syncStatus\<close> 3 the array of statuses is emptied and the level
  is 0, and the next verified info from a single peer is meant to be reported with
  \<open>syncStatus\<close> at most 1. When that peer is the third one, its payload lands at index 2 of
  the empty array, the two holes before it are counted as equal, and the emission says
  \<open>syncStatus\<close> 2.
\<close>

theorem third_socket_reports_two_after_reset:
  "effects (run example_env example_config
      [Message 3000 0 tick100, Message 3001 1 tick100, Message 3002 2 tick100] connected) =
     effects connected @
     [Emit (Info 1 (Number 10) (Number 100)), Emit (Info 2 (Number 10) (Number 100)),
      Emit (Info 3 (Number 10) (Number 100))] \<and>
   statusResponses (run example_env example_config
      [Message 3000 0 tick100, Message 3001 1 tick100, Message 3002 2 tick100] connected) = [] \<and>
   latestSyncStatus (run example_env example_config
      [Message 3000 0 tick100, Message 3001 1 tick100, Message 3002 2 tick100] connected) = 0 \<and>
   effects (run example_env example_config
      [Message 3000 0 tick100, Message 3001 1 tick100, Message 3002 2 tick100,
       Message 4000 2 tick101] connected) =
     effects connected @
     [Emit (Info 1 (Number 10) (Number 100)), Emit (Info 2 (Number 10) (Number 100)),
      Emit (Info 3 (Number 10) (Number 100)), Emit (Info 2 (Number 10) (Number 101))]"
  apply (simp only: run_def fold_simps o_apply id_apply apply_step.simps onmessage100 onmessage101)
  apply code_simp
  done

section \<open>The watchdog at startup\<close>

lemma openSockets_effects:
  "\<forall>i\<in>set is. i < length (computors cfg) \<Longrightarrow>
   \<exists>c'. openSockets cfg is c = Inr c' \<and>
        effects c' = effects c @ map (\<lambda>i. SocketNew i (computors cfg ! i)) is \<and>
        latestSynchronizationTimestamp c' = latestSynchronizationTimestamp c \<and>
        latestSyncStatus c' = latestSyncStatus c \<and>
        timers c' = timers c \<and> handles c' = handles c \<and>
        responsesByKey c' = responsesByKey c \<and> requestsByKey c' = requestsByKey c"
proof (induction "is" arbitrary: c)
  case Nil
  then show ?case by simp
next
  case (Cons i "is")
  let ?c1 = "do_effects [SocketNew i (computors cfg ! i)]
                  (c\<lparr>sockets := array_set (sockets c) i
                       \<lparr>computor = computors cfg ! i, url_argument = None, onclose = True,
                          opened = False, deferred = []\<rparr>\<rparr>)"
  from Cons.prems have 1: "openSocket cfg None i c = Inr ?c1"
    by (simp add: openSocket_def Let_def)
  from Cons.prems have "\<forall>i\<in>set is. i < length (computors cfg)" by simp
  from Cons.IH [OF this, of ?c1] obtain c' where
    "openSockets cfg is ?c1 = Inr c'" and
    "effects c' = effects ?c1 @ map (\<lambda>i. SocketNew i (computors cfg ! i)) is \<and>
        latestSynchronizationTimestamp c' = latestSynchronizationTimestamp ?c1 \<and>
        latestSyncStatus c' = latestSyncStatus ?c1 \<and>
        timers c' = timers ?c1 \<and> handles c' = handles ?c1 \<and>
        responsesByKey c' = responsesByKey ?c1 \<and> requestsByKey c' = requestsByKey ?c1"
    by blast
  with 1 show ?case by (simp add: do_effects_def)
qed

lemma synchronizationRoutine_effects:
  "effects (synchronizationRoutine cfg now c) =
     effects c @ (if now - latestSynchronizationTimestamp c > synchronizationInterval cfg
                  then [Emit (Info 0 Undefined Undefined)] else [])"
  by (simp add: synchronizationRoutine_def setTimeout_def do_effects_def Let_def)

lemma synchronizationRoutine_timer:
  "synchronizationTimeout (synchronizationRoutine cfg now c) = Some (handles c) \<and>
   timers (synchronizationRoutine cfg now c) =
     timers c @ [(handles c, now + synchronizationInterval cfg, Routine)] \<and>
   handles (synchronizationRoutine cfg now c) = handles c + 1"
  by (simp add: synchronizationRoutine_def setTimeout_def do_effects_def Let_def)

text \<open>
  C10. Where three computors are configured (else \<open>open\<close> throws), \<open>open()\<close> creates the
  three sockets and runs the synchronization routine at once: it emits
  \<open>info {syncStatus: 0}\<close> exactly when the time since the latest synchronization exceeds
  the interval, and arms the timer. In \<open>createConnection\<close> that timestamp is the initial 0,
  so the event is emitted at startup whenever the current time exceeds
  \<open>synchronizationInterval\<close>; the only effects before it are the three sockets being
  created, so no frame of a peer has been handled.
\<close>

theorem open_runs_synchronizationRoutine:
  assumes "NUMBER_OF_CONNECTIONS \<le> length (computors cfg)"
  shows "(\<exists>c'. open cfg now None None c = Inr c' \<and>
            effects c' = effects c @ map (\<lambda>i. SocketNew i (computors cfg ! i)) [0..<NUMBER_OF_CONNECTIONS] @
              (if now - latestSynchronizationTimestamp c > synchronizationInterval cfg
               then [Emit (Info 0 Undefined Undefined)] else []) \<and>
            synchronizationTimeout c' = Some (handles c) \<and>
            timers c' = timers c @ [(handles c, now + synchronizationInterval cfg, Routine)]) \<and>
         (\<exists>c'. createConnection cfg now = Inr c' \<and>
            effects c' = map (\<lambda>i. SocketNew i (computors cfg ! i)) [0..<NUMBER_OF_CONNECTIONS] @
              (if now > synchronizationInterval cfg then [Emit (Info 0 Undefined Undefined)] else []))"
proof -
  have opens: "\<exists>c'. open cfg now None None c = Inr c' \<and>
            effects c' = effects c @ map (\<lambda>i. SocketNew i (computors cfg ! i)) [0..<NUMBER_OF_CONNECTIONS] @
              (if now - latestSynchronizationTimestamp c > synchronizationInterval cfg
               then [Emit (Info 0 Undefined Undefined)] else []) \<and>
            synchronizationTimeout c' = Some (handles c) \<and>
            timers c' = timers c @ [(handles c, now + synchronizationInterval cfg, Routine)]" for c
  proof -
    from assms have "\<forall>i\<in>set [0..<NUMBER_OF_CONNECTIONS]. i < length (computors cfg)" by simp
    from openSockets_effects [OF this, of "c\<lparr>sockets := []\<rparr>"] obtain c1 where
      1: "openSockets cfg [0..<NUMBER_OF_CONNECTIONS] (c\<lparr>sockets := []\<rparr>) = Inr c1" and
      2: "effects c1 = effects c @ map (\<lambda>i. SocketNew i (computors cfg ! i)) [0..<NUMBER_OF_CONNECTIONS]"
         "latestSynchronizationTimestamp c1 = latestSynchronizationTimestamp c"
         "timers c1 = timers c" "handles c1 = handles c"
      by auto
    from 1 have "open cfg now None None c = Inr (synchronizationRoutine cfg now c1)"
      by (simp add: open_def)
    with 2 show ?thesis
      by (simp add: synchronizationRoutine_effects synchronizationRoutine_timer)
  qed
  from opens [of initial] have "\<exists>c'. createConnection cfg now = Inr c' \<and>
            effects c' = map (\<lambda>i. SocketNew i (computors cfg ! i)) [0..<NUMBER_OF_CONNECTIONS] @
              (if now > synchronizationInterval cfg then [Emit (Info 0 Undefined Undefined)] else [])"
    by (auto simp: createConnection_def initial_def)
  with opens [of c] show ?thesis by blast
qed

theorem open_runs_synchronizationRoutine_witness:
  "NUMBER_OF_CONNECTIONS \<le> length (computors example_config) \<and>
   (\<exists>c'. createConnection example_config 70000 = Inr c' \<and>
      effects c' = [SocketNew 0 ''wss://AA'', SocketNew 1 ''wss://AB'', SocketNew 2 ''wss://AC'',
                    Emit (Info 0 Undefined Undefined)])"
proof -
  have h: "NUMBER_OF_CONNECTIONS \<le> length (computors example_config)"
    by (simp add: NUMBER_OF_CONNECTIONS_def example_config_def)
  from open_runs_synchronizationRoutine [OF h, of 70000 initial] h show ?thesis
    by (simp add: NUMBER_OF_CONNECTIONS_def example_config_def upt_rec numeral_2_eq_2)
qed

section \<open>The watchdog\<close>

lemma find_append_fresh:
  "\<forall>x\<in>set xs. fst x < (h::nat) \<Longrightarrow> find (\<lambda>x. fst x = h) (xs @ [(h, t, k)]) = Some (h, t, k)"
  by (induction xs) auto

lemma armed_next_run: "armed c t \<Longrightarrow> next_run c = Some t"
  by (auto simp: armed_def next_run_def)

lemma synchronizationRoutine_armed:
  assumes "\<forall>x\<in>set (timers c). fst x < handles c"
  shows "armed (synchronizationRoutine cfg now c) (now + synchronizationInterval cfg)"
proof -
  have "\<forall>x\<in>set (timers (synchronizationRoutine cfg now c)). fst x < handles (synchronizationRoutine cfg now c)"
    using assms by (auto simp: synchronizationRoutine_timer)
  moreover have "find (\<lambda>x. fst x = handles c) (timers (synchronizationRoutine cfg now c)) =
      Some (handles c, now + synchronizationInterval cfg, Routine)"
    using assms by (simp add: synchronizationRoutine_timer find_append_fresh)
  ultimately show ?thesis
    by (simp add: armed_def synchronizationRoutine_timer)
qed

lemma synchronizationRoutine_timestamp:
  "latestSynchronizationTimestamp (synchronizationRoutine cfg now c) = latestSynchronizationTimestamp c"
  by (simp add: synchronizationRoutine_def setTimeout_def do_effects_def Let_def)

lemma synchronizationRoutine_level:
  "latestSyncStatus (synchronizationRoutine cfg now c) =
     (if now - latestSynchronizationTimestamp c > synchronizationInterval cfg then 0 else latestSyncStatus c)"
  by (simp add: synchronizationRoutine_def setTimeout_def do_effects_def Let_def)

lemma watchdog_fires_armed:
  assumes "armed c t"
  shows "\<exists>c0. watchdog_fires cfg c = synchronizationRoutine cfg t c0 \<and>
           (\<forall>x\<in>set (timers c0). fst x < handles c0) \<and>
           effects c0 = effects c \<and>
           latestSyncStatus c0 = latestSyncStatus c \<and>
           latestSynchronizationTimestamp c0 = latestSynchronizationTimestamp c"
proof -
  from assms obtain h where h: "synchronizationTimeout c = Some h"
    "find (\<lambda>x. fst x = h) (timers c) = Some (h, t, Routine)"
    and fresh: "\<forall>x\<in>set (timers c). fst x < handles c"
    by (auto simp: armed_def)
  let ?c0 = "c\<lparr>timers := filter (\<lambda>t. fst t \<noteq> h) (timers c)\<rparr>"
  from h have "watchdog_fires cfg c = synchronizationRoutine cfg t ?c0"
    by (simp add: watchdog_fires_def fire_def run_task_def)
  moreover from fresh have "\<forall>x\<in>set (timers ?c0). fst x < handles ?c0" by simp
  ultimately show ?thesis by (intro exI [of _ ?c0]) simp
qed

lemma watchdog_fires_step:
  assumes "armed c t"
  shows "armed (watchdog_fires cfg c) (t + synchronizationInterval cfg) \<and>
         latestSynchronizationTimestamp (watchdog_fires cfg c) = latestSynchronizationTimestamp c \<and>
         effects (watchdog_fires cfg c) =
           effects c @ (if t - latestSynchronizationTimestamp c > synchronizationInterval cfg
                        then [Emit (Info 0 Undefined Undefined)] else []) \<and>
         latestSyncStatus (watchdog_fires cfg c) =
           (if t - latestSynchronizationTimestamp c > synchronizationInterval cfg then 0 else latestSyncStatus c)"
proof -
  from watchdog_fires_armed [OF assms, of cfg] obtain c0 where
    "watchdog_fires cfg c = synchronizationRoutine cfg t c0"
    "\<forall>x\<in>set (timers c0). fst x < handles c0"
    "effects c0 = effects c" "latestSyncStatus c0 = latestSyncStatus c"
    "latestSynchronizationTimestamp c0 = latestSynchronizationTimestamp c"
    by blast
  then show ?thesis
    by (simp add: synchronizationRoutine_armed synchronizationRoutine_timestamp
        synchronizationRoutine_effects synchronizationRoutine_level)
qed

lemma watchdog_fires_iterated:
  assumes "armed c t"
  shows "armed ((watchdog_fires cfg ^^ n) c) (t + int n * synchronizationInterval cfg) \<and>
         latestSynchronizationTimestamp ((watchdog_fires cfg ^^ n) c) = latestSynchronizationTimestamp c"
proof (induction n)
  case 0
  with assms show ?case by simp
next
  case (Suc n)
  then have a: "armed ((watchdog_fires cfg ^^ n) c) (t + int n * synchronizationInterval cfg)"
    and l: "latestSynchronizationTimestamp ((watchdog_fires cfg ^^ n) c) = latestSynchronizationTimestamp c"
    by simp_all
  from watchdog_fires_step [OF a, of cfg] l show ?case
    by (simp add: algebra_simps)
qed

lemma fire_time:
  assumes "0 < (i::int)" and "now \<le> l + i"
  shows "\<exists>n. l + i < now + (int n + 1) * i \<and> now + (int n + 1) * i \<le> l + 2 * i"
proof -
  let ?a = "l + i - now"
  from assms have a: "0 \<le> ?a" by simp
  from assms have q: "0 \<le> ?a div i" by (simp add: pos_imp_zdiv_nonneg_iff)
  have eq: "?a = ?a div i * i + ?a mod i" by simp
  from assms have r: "0 \<le> ?a mod i" "?a mod i < i" by simp_all
  have "now + (?a div i + 1) * i = l + 2 * i - ?a mod i"
    using eq by (simp add: algebra_simps)
  with r have "l + i < now + (?a div i + 1) * i \<and> now + (?a div i + 1) * i \<le> l + 2 * i"
    by linarith
  with q show ?thesis by (intro exI [of _ "nat (?a div i)"]) simp
qed

text \<open>
  C7. Each run of the routine demotes (sets the level to 0 and emits
  \<open>info {syncStatus: 0}\<close>) exactly when the time since the latest progress exceeds
  \<open>synchronizationInterval\<close>, and arms the next run in either case, one interval later: a
  watchdog started at \<open>now\<close> runs at \<open>now + (n + 1) * interval\<close> for every \<open>n\<close>. With timers
  firing when they are due and the progress timestamp left alone (no verified info raises
  the level), a watchdog running before the expiry runs and demotes at a time later than
  the expiry by at most one interval. (The interval is a positive duration, and timer
  handles are handed out in increasing order.)
\<close>

theorem watchdog_demotes_within_one_interval:
  assumes "0 < synchronizationInterval cfg"
    and "fresh_handles c"
  shows "latestSyncStatus (synchronizationRoutine cfg now c) =
           (if now - latestSynchronizationTimestamp c > synchronizationInterval cfg
            then 0 else latestSyncStatus c) \<and>
         effects (synchronizationRoutine cfg now c) =
           effects c @ (if now - latestSynchronizationTimestamp c > synchronizationInterval cfg
                        then [Emit (Info 0 Undefined Undefined)] else []) \<and>
         (\<forall>n. next_run ((watchdog_fires cfg ^^ n) (synchronizationRoutine cfg now c)) =
                Some (now + (int n + 1) * synchronizationInterval cfg)) \<and>
         (now \<le> latestSynchronizationTimestamp c + synchronizationInterval cfg \<longrightarrow>
            (\<exists>n t. next_run ((watchdog_fires cfg ^^ n) (synchronizationRoutine cfg now c)) = Some t \<and>
               latestSynchronizationTimestamp c + synchronizationInterval cfg < t \<and>
               t \<le> latestSynchronizationTimestamp c + 2 * synchronizationInterval cfg \<and>
               effects ((watchdog_fires cfg ^^ Suc n) (synchronizationRoutine cfg now c)) =
                 effects ((watchdog_fires cfg ^^ n) (synchronizationRoutine cfg now c)) @
                 [Emit (Info 0 Undefined Undefined)] \<and>
               latestSyncStatus ((watchdog_fires cfg ^^ Suc n) (synchronizationRoutine cfg now c)) = 0))"
proof -
  let ?c = "synchronizationRoutine cfg now c"
  let ?i = "synchronizationInterval cfg"
  let ?l = "latestSynchronizationTimestamp c"
  from assms(2) have "\<forall>t\<in>set (timers c). fst t < handles c"
    by (simp add: fresh_handles_def)
  then have armed0: "armed ?c (now + ?i)"
    by (rule synchronizationRoutine_armed)
  have iter: "armed ((watchdog_fires cfg ^^ n) ?c) (now + (int n + 1) * ?i) \<and>
      latestSynchronizationTimestamp ((watchdog_fires cfg ^^ n) ?c) = ?l" for n
    using watchdog_fires_iterated [OF armed0, where cfg = cfg and n = n]
    by (simp add: algebra_simps synchronizationRoutine_timestamp)
  have period: "\<forall>n. next_run ((watchdog_fires cfg ^^ n) ?c) = Some (now + (int n + 1) * ?i)"
    using iter by (simp add: armed_next_run)
  have live: "\<exists>n t. next_run ((watchdog_fires cfg ^^ n) ?c) = Some t \<and> ?l + ?i < t \<and> t \<le> ?l + 2 * ?i \<and>
               effects ((watchdog_fires cfg ^^ Suc n) ?c) =
                 effects ((watchdog_fires cfg ^^ n) ?c) @ [Emit (Info 0 Undefined Undefined)] \<and>
               latestSyncStatus ((watchdog_fires cfg ^^ Suc n) ?c) = 0"
    if "now \<le> ?l + ?i"
  proof -
    from fire_time [OF assms(1) that] obtain n where
      n: "?l + ?i < now + (int n + 1) * ?i" "now + (int n + 1) * ?i \<le> ?l + 2 * ?i"
      by blast
    let ?cn = "(watchdog_fires cfg ^^ n) ?c"
    from iter [of n] have a: "armed ?cn (now + (int n + 1) * ?i)"
      and l: "latestSynchronizationTimestamp ?cn = ?l" by simp_all
    from watchdog_fires_step [OF a, of cfg] l n(1)
    have "effects (watchdog_fires cfg ?cn) = effects ?cn @ [Emit (Info 0 Undefined Undefined)] \<and>
          latestSyncStatus (watchdog_fires cfg ?cn) = 0"
      by simp
    with n a show ?thesis
      by (intro exI [of _ n] exI [of _ "now + (int n + 1) * ?i"]) (simp add: armed_next_run)
  qed
  from period live show ?thesis
    by (simp add: synchronizationRoutine_level synchronizationRoutine_effects)
qed

theorem watchdog_demotes_within_one_interval_witness:
  "0 < synchronizationInterval example_config \<and> timers initial = [] \<and>
   next_run (synchronizationRoutine example_config 1000 initial) = Some 61000 \<and>
   (\<exists>n t. next_run ((watchdog_fires example_config ^^ n)
                      (synchronizationRoutine example_config 1000 initial)) = Some t \<and>
      60000 < t \<and> t \<le> 120000 \<and>
      effects ((watchdog_fires example_config ^^ Suc n)
                 (synchronizationRoutine example_config 1000 initial)) =
        effects ((watchdog_fires example_config ^^ n)
                   (synchronizationRoutine example_config 1000 initial)) @
        [Emit (Info 0 Undefined Undefined)])"
proof -
  have h1: "0 < synchronizationInterval example_config"
    by (simp add: example_config_def)
  have h2: "fresh_handles initial"
    by (simp add: fresh_handles_def initial_def)
  note w = watchdog_demotes_within_one_interval [OF h1 h2, of 1000]
  from w have "\<forall>n. next_run ((watchdog_fires example_config ^^ n)
      (synchronizationRoutine example_config 1000 initial)) =
      Some (1000 + (int n + 1) * synchronizationInterval example_config)"
    by blast
  then have "next_run ((watchdog_fires example_config ^^ 0)
      (synchronizationRoutine example_config 1000 initial)) =
      Some (1000 + (int 0 + 1) * synchronizationInterval example_config)"
    by (rule spec)
  then have 1: "next_run (synchronizationRoutine example_config 1000 initial) = Some 61000"
    by (simp add: example_config_def)
  have "1000 \<le> latestSynchronizationTimestamp initial + synchronizationInterval example_config"
    by (simp add: example_config_def initial_def)
  with w have "\<exists>n t. next_run ((watchdog_fires example_config ^^ n)
                      (synchronizationRoutine example_config 1000 initial)) = Some t \<and>
      latestSynchronizationTimestamp initial + synchronizationInterval example_config < t \<and>
      t \<le> latestSynchronizationTimestamp initial + 2 * synchronizationInterval example_config \<and>
      effects ((watchdog_fires example_config ^^ Suc n)
                 (synchronizationRoutine example_config 1000 initial)) =
        effects ((watchdog_fires example_config ^^ n)
                   (synchronizationRoutine example_config 1000 initial)) @
        [Emit (Info 0 Undefined Undefined)] \<and>
      latestSyncStatus ((watchdog_fires example_config ^^ Suc n)
                 (synchronizationRoutine example_config 1000 initial)) = 0"
    by blast
  then have 2: "\<exists>n t. next_run ((watchdog_fires example_config ^^ n)
                      (synchronizationRoutine example_config 1000 initial)) = Some t \<and>
      60000 < t \<and> t \<le> 120000 \<and>
      effects ((watchdog_fires example_config ^^ Suc n)
                 (synchronizationRoutine example_config 1000 initial)) =
        effects ((watchdog_fires example_config ^^ n)
                   (synchronizationRoutine example_config 1000 initial)) @
        [Emit (Info 0 Undefined Undefined)]"
    by (simp add: example_config_def initial_def) blast
  from h1 1 2 show ?thesis by (simp add: initial_def)
qed

section \<open>Termination\<close>

lemma socket_terminate_frame:
  "timers (socket_terminate i c) = timers c"
  "synchronizationTimeout (socket_terminate i c) = synchronizationTimeout c"
  "responsesByKey (socket_terminate i c) = responsesByKey c"
  "requestsByKey (socket_terminate i c) = requestsByKey c"
  "length (sockets (socket_terminate i c)) = length (sockets c)"
  by (simp_all add: socket_terminate_def do_effects_def split: option.splits)

lemma socket_terminate_present:
  "(socket_at (socket_terminate i c) j = None) = (socket_at c j = None)"
  by (auto simp: socket_terminate_def socket_at_def do_effects_def nth_list_update
      split: option.splits if_splits)

lemma socket_terminate_effects:
  "effects (socket_terminate i c) =
     effects c @ (if socket_at c i = None then [] else [SocketDetach i, SocketClose i])"
  by (simp add: socket_terminate_def do_effects_def split: option.splits)

lemma socket_terminate_detached:
  "detached c j \<Longrightarrow> detached (socket_terminate i c) j"
  by (auto simp: detached_def socket_terminate_def socket_at_def do_effects_def nth_list_update
      split: option.splits if_splits)

lemma socket_terminate_detaches:
  "i < length (sockets c) \<Longrightarrow> detached (socket_terminate i c) i"
  by (auto simp: detached_def socket_terminate_def socket_at_def do_effects_def split: option.splits)

lemma fold_terminate:
  "effects (fold socket_terminate is c) =
     effects c @ concat (map (\<lambda>i. [SocketDetach i, SocketClose i]) (filter (\<lambda>i. socket_at c i \<noteq> None) is)) \<and>
   timers (fold socket_terminate is c) = timers c \<and>
   synchronizationTimeout (fold socket_terminate is c) = synchronizationTimeout c \<and>
   responsesByKey (fold socket_terminate is c) = responsesByKey c \<and>
   requestsByKey (fold socket_terminate is c) = requestsByKey c \<and>
   length (sockets (fold socket_terminate is c)) = length (sockets c)"
proof (induction "is" arbitrary: c)
  case Nil
  show ?case by simp
next
  case (Cons i "is")
  have "filter (\<lambda>j. socket_at (socket_terminate i c) j \<noteq> None) is = filter (\<lambda>j. socket_at c j \<noteq> None) is"
    by (simp add: socket_terminate_present)
  with Cons [of "socket_terminate i c"] show ?case
    by (simp add: socket_terminate_frame socket_terminate_effects)
qed

lemma fold_terminate_detached:
  "(\<forall>i\<in>set is. i < length (sockets c)) \<Longrightarrow> j \<in> set is \<or> detached c j \<Longrightarrow>
   detached (fold socket_terminate is c) j"
proof (induction "is" arbitrary: c)
  case Nil
  then show ?case by simp
next
  case (Cons i "is")
  from Cons.prems(1) have 1: "\<forall>k\<in>set is. k < length (sockets (socket_terminate i c))"
    by (simp add: socket_terminate_frame)
  from Cons.prems have "j \<in> set is \<or> detached (socket_terminate i c) j"
    by (auto intro: socket_terminate_detached socket_terminate_detaches)
  from Cons.IH [OF 1 this] show ?case by simp
qed

lemma close_sockets: "sockets (close c) = sockets (fold socket_terminate [0..<length (sockets c)] c)"
  by (simp add: close_def clearTimeout_def do_effects_def split: option.splits)

lemma detached_sockets: "sockets c' = sockets c \<Longrightarrow> detached c' i = detached c i"
  by (simp add: detached_def socket_at_def)

lemma close_detached: "i < length (sockets c) \<Longrightarrow> detached (close c) i"
proof -
  assume "i < length (sockets c)"
  then have "detached (fold socket_terminate [0..<length (sockets c)] c) i"
    by (intro fold_terminate_detached) simp_all
  then show ?thesis
    by (simp add: detached_sockets [OF close_sockets])
qed

lemma close_sockets_length: "length (sockets (close c)) = length (sockets c)"
  by (simp add: close_def clearTimeout_def do_effects_def fold_terminate split: option.splits)

lemma find_filter_none: "find (\<lambda>t. fst t = h) (filter (\<lambda>t. fst t \<noteq> h) ts) = None"
  by (induction ts) auto

text \<open>
  What \<open>close()\<close> does, in any state: it goes through the sockets in order and, for each,
  resets \<open>onclose\<close> and then calls \<open>close()\<close> on it, so the close event of any of these
  sockets runs no handler; it removes the one timer that \<open>synchronizationTimeout\<close> names
  and no other; and it leaves the pending requests, their stored bytes and their promises
  alone (the only event emitted is \<open>info {syncStatus: 0}\<close>).
\<close>

lemma close_detaches_sockets:
  "effects (close c) =
     effects c @
     concat (map (\<lambda>i. [SocketDetach i, SocketClose i])
               (filter (\<lambda>i. socket_at c i \<noteq> None) [0..<length (sockets c)])) @
     [Emit (Info 0 Undefined Undefined)] \<and>
   (\<forall>now i. socket_onclose cfg now i (close c) = close c) \<and>
   timers (close c) =
     (case synchronizationTimeout c of
        None \<Rightarrow> timers c
      | Some h \<Rightarrow> filter (\<lambda>t. fst t \<noteq> h) (timers c)) \<and>
   responsesByKey (close c) = responsesByKey c \<and>
   requestsByKey (close c) = requestsByKey c"
proof -
  have 1: "effects (close c) =
     effects c @
     concat (map (\<lambda>i. [SocketDetach i, SocketClose i])
               (filter (\<lambda>i. socket_at c i \<noteq> None) [0..<length (sockets c)])) @
     [Emit (Info 0 Undefined Undefined)]"
    by (simp add: close_def clearTimeout_def do_effects_def fold_terminate split: option.splits)
  have 2: "socket_onclose cfg now i (close c) = close c" for now i
  proof (cases "i < length (sockets c)")
    case True
    from close_detached [OF True] show ?thesis
      by (auto simp: socket_onclose_def detached_def split: option.splits)
  next
    case False
    then show ?thesis by (simp add: socket_onclose_def socket_at_def close_sockets_length)
  qed
  have 3: "timers (close c) =
     (case synchronizationTimeout c of
        None \<Rightarrow> timers c
      | Some h \<Rightarrow> filter (\<lambda>t. fst t \<noteq> h) (timers c))"
    by (simp add: close_def clearTimeout_def do_effects_def fold_terminate split: option.splits)
  have 5: "responsesByKey (close c) = responsesByKey c \<and> requestsByKey (close c) = requestsByKey c"
    by (simp add: close_def clearTimeout_def do_effects_def fold_terminate split: option.splits)
  from 1 2 3 5 show ?thesis by simp
qed

text \<open>
  C9. Explicit termination is meant to leave nothing running: no reconnect after it, the
  reconnect timer dropped, the watchdog cancelled. \<open>close()\<close> detaches the close handlers
  of the sockets it finds and clears the timer \<open>synchronizationTimeout\<close> names, and that is
  all. The handle of a reconnect timer is kept nowhere: when a socket closed on its own
  shortly before \<open>close()\<close>, its reconnect timer is still pending afterwards, and when it
  fires a new socket is opened with its close handler attached, whose close schedules the
  next reconnect. And \<open>synchronizationTimeout\<close> holds one handle: after a second \<open>open()\<close>
  two watchdog timers are pending, \<open>close()\<close> clears the later one, and the earlier one
  fires, emits \<open>info {syncStatus: 0}\<close> and rearms.
\<close>

theorem close_leaves_timers_running:
  "timers disconnected = [(0, 61000, Routine), (1, 2100, Reconnect 0 None)] \<and>
   timers (close disconnected) = [(1, 2100, Reconnect 0 None)] \<and>
   effects (fire example_config 1 (close disconnected)) =
     effects (close disconnected) @ [SocketNew 0 ''wss://AA''] \<and>
   socket_at (fire example_config 1 (close disconnected)) 0 =
     Some \<lparr>computor = ''wss://AA'', url_argument = None, onclose = True, opened = False, deferred = []\<rparr> \<and>
   timers (socket_onclose example_config 9000 0 (fire example_config 1 (close disconnected))) =
     [(2, 9100, Reconnect 0 None)] \<and>
   timers launched = [(0, 61000, Routine), (1, 62000, Routine)] \<and>
   synchronizationTimeout launched = Some 1 \<and>
   timers (close launched) = [(0, 61000, Routine)] \<and>
   effects (fire example_config 0 (close launched)) =
     effects (close launched) @ [Emit (Info 0 Undefined Undefined)] \<and>
   timers (fire example_config 0 (close launched)) = [(2, 121000, Routine)]"
  by code_simp

section \<open>Coalescing of commands\<close>

lemma map_of_delete: "map_of (delete k kvs) k' = (if k' = k then None else map_of kvs k')"
  by (induction kvs) (auto simp: delete_def)

lemma send_when_open_frame:
  "responsesByKey (send_when_open r i c) = responsesByKey c"
  "requestsByKey (send_when_open r i c) = requestsByKey c"
  "promises (send_when_open r i c) = promises c"
  "length (sockets (send_when_open r i c)) = length (sockets c)"
  by (simp_all add: send_when_open_def do_effects_def split: option.splits)

lemma send_when_open_is_open: "is_open (send_when_open r i c) j = is_open c j"
  by (auto simp: send_when_open_def is_open_def socket_at_def do_effects_def nth_list_update
      split: option.splits if_splits)

lemma send_when_open_present: "(socket_at (send_when_open r i c) j = None) = (socket_at c j = None)"
  by (auto simp: send_when_open_def socket_at_def do_effects_def nth_list_update
      split: option.splits if_splits)

lemma send_when_open_effects:
  "effects (send_when_open r i c) = effects c @ (if is_open c i then [SocketSend i r] else [])"
  by (auto simp: send_when_open_def is_open_def do_effects_def split: option.splits)

lemma send_when_open_waiting:
  "waiting (send_when_open r i c) j =
     waiting c j @ (if j = i \<and> socket_at c i \<noteq> None \<and> \<not> is_open c i then [r] else [])"
  by (auto simp: send_when_open_def waiting_def is_open_def socket_at_def do_effects_def nth_list_update
      split: option.splits if_splits)

lemma fold_send_when_open:
  "distinct is \<Longrightarrow>
   effects (fold (send_when_open r) is c) =
     effects c @ map (\<lambda>i. SocketSend i r) (filter (is_open c) is) \<and>
   (\<forall>j. waiting (fold (send_when_open r) is c) j =
     waiting c j @ (if j \<in> set is \<and> socket_at c j \<noteq> None \<and> \<not> is_open c j then [r] else [])) \<and>
   responsesByKey (fold (send_when_open r) is c) = responsesByKey c \<and>
   requestsByKey (fold (send_when_open r) is c) = requestsByKey c \<and>
   promises (fold (send_when_open r) is c) = promises c"
proof (induction "is" arbitrary: c)
  case Nil
  show ?case by simp
next
  case (Cons i "is")
  let ?c = "send_when_open r i c"
  have open_same: "is_open ?c = is_open c"
    by (rule ext) (rule send_when_open_is_open)
  from Cons.prems have d: "distinct is" and ni: "i \<notin> set is" by simp_all
  from Cons.IH [OF d, of ?c] have
    e: "effects (fold (send_when_open r) is ?c) =
          effects ?c @ map (\<lambda>i. SocketSend i r) (filter (is_open ?c) is)" and
    w: "\<And>j. waiting (fold (send_when_open r) is ?c) j =
          waiting ?c j @ (if j \<in> set is \<and> socket_at ?c j \<noteq> None \<and> \<not> is_open ?c j then [r] else [])" and
    f: "responsesByKey (fold (send_when_open r) is ?c) = responsesByKey ?c"
       "requestsByKey (fold (send_when_open r) is ?c) = requestsByKey ?c"
       "promises (fold (send_when_open r) is ?c) = promises ?c"
    by blast+
  have 1: "effects (fold (send_when_open r) (i # is) c) =
     effects c @ map (\<lambda>i. SocketSend i r) (filter (is_open c) (i # is))"
    using e by (simp add: open_same send_when_open_effects)
  have 2: "waiting (fold (send_when_open r) (i # is) c) j =
     waiting c j @ (if j \<in> set (i # is) \<and> socket_at c j \<noteq> None \<and> \<not> is_open c j then [r] else [])" for j
    using w [of j] ni
    by (auto simp: open_same send_when_open_waiting send_when_open_present)
  from 1 2 f show ?case by (simp add: send_when_open_frame)
qed

lemma broadcast_result:
  "effects (broadcast r c) =
     effects c @ map (\<lambda>i. SocketSend i r) (filter (is_open c) [0..<length (sockets c)]) \<and>
   (\<forall>j. waiting (broadcast r c) j =
     waiting c j @ (if socket_at c j \<noteq> None \<and> \<not> is_open c j then [r] else [])) \<and>
   responsesByKey (broadcast r c) = responsesByKey c \<and>
   requestsByKey (broadcast r c) = requestsByKey c \<and>
   promises (broadcast r c) = promises c"
proof -
  have "distinct [0..<length (sockets c)]" by simp
  from fold_send_when_open [OF this, of r c] show ?thesis
    by (auto simp: broadcast_def socket_at_def)
qed

lemma reply_update_promise:
  assumes "map_of (responsesByKey c) k = Some p"
    and "map_of (responsesByKey (reply_update key i data m c)) k = Some p'"
  shows "promise p' = promise p"
  using assms
  by (auto simp: reply_update_def do_effects_def Let_def map_of_assign map_of_delete
      split: option.splits if_splits)

lemma info_update_pending: "responsesByKey (info_update now i data epoch tick c) = responsesByKey c"
  by (simp add: info_update_def do_effects_def Let_def)

lemma socket_close_pending: "responsesByKey (socket_close i c) = responsesByKey c"
  by (simp add: socket_close_def do_effects_def)

lemma onmessage_promise:
  assumes "map_of (responsesByKey c) k = Some p"
    and "map_of (responsesByKey (onmessage e cfg now i data c)) k = Some p'"
  shows "promise p' = promise p"
  using assms
  by (auto simp: onmessage_def info_update_pending socket_close_pending
      split: option.splits if_splits bool.splits dest: reply_update_promise)

lemma sendCommand_promise:
  assumes "map_of (responsesByKey c) k = Some p"
    and "map_of (responsesByKey (snd (sendCommand e command payload c))) k = Some p'"
  shows "promise p' = promise p"
  using assms
  by (auto simp: sendCommand_def Let_def broadcast_result map_of_assign
      split: option.splits if_splits)

lemma resolveOnOpenOrClose_pending: "responsesByKey (resolveOnOpenOrClose i c) = responsesByKey c"
  by (simp add: resolveOnOpenOrClose_def do_effects_def split: option.splits)

lemma socket_onopen_pending: "responsesByKey (socket_onopen i c) = responsesByKey c"
  by (simp add: socket_onopen_def resolveOnOpenOrClose_pending onopen_def do_effects_def)

lemma socket_onclose_pending: "responsesByKey (socket_onclose cfg now i c) = responsesByKey c"
  by (simp add: socket_onclose_def setTimeout_def resolveOnOpenOrClose_pending do_effects_def
      split: option.splits)

lemma synchronizationRoutine_pending: "responsesByKey (synchronizationRoutine cfg now c) = responsesByKey c"
  by (simp add: synchronizationRoutine_def setTimeout_def do_effects_def Let_def)

lemma fire_pending: "responsesByKey (fire cfg h c) = responsesByKey c"
  by (auto simp: fire_def run_task_def synchronizationRoutine_pending openSocket_def do_effects_def Let_def
      split: option.splits task.splits sum.splits if_splits)

lemma close_pending: "responsesByKey (close c) = responsesByKey c"
  by (simp add: close_def clearTimeout_def do_effects_def fold_terminate split: option.splits)

lemma socket_onerror_pending: "responsesByKey (socket_onerror i c) = responsesByKey c"
  by (simp add: socket_onerror_def do_effects_def)

lemma apply_step_promise:
  assumes "map_of (responsesByKey c) k = Some p"
    and "map_of (responsesByKey (apply_step e cfg s c)) k = Some p'"
  shows "promise p' = promise p"
  using assms
  by (cases s)
     (auto simp: socket_onopen_pending socket_onclose_pending socket_onerror_pending fire_pending
       close_pending
       dest: onmessage_promise sendCommand_promise)

lemma run_snoc: "run e cfg (steps @ [s]) c = apply_step e cfg s (run e cfg steps c)"
  by (simp add: run_def)

lemma run_promise:
  assumes "map_of (responsesByKey c) k = Some p"
    and "\<forall>n\<le>length steps. map_of (responsesByKey (run e cfg (take n steps) c)) k \<noteq> None"
  shows "\<exists>p'. map_of (responsesByKey (run e cfg steps c)) k = Some p' \<and> promise p' = promise p"
  using assms(2)
proof (induction steps rule: rev_induct)
  case Nil
  with assms(1) show ?case by (simp add: run_def)
next
  case (snoc s steps)
  have "\<forall>n\<le>length steps. map_of (responsesByKey (run e cfg (take n steps) c)) k \<noteq> None"
  proof (intro allI impI)
    fix n assume n: "n \<le> length steps"
    then have "n \<le> length (steps @ [s])" by simp
    with snoc.prems have "map_of (responsesByKey (run e cfg (take n (steps @ [s])) c)) k \<noteq> None"
      by blast
    with n show "map_of (responsesByKey (run e cfg (take n steps) c)) k \<noteq> None" by simp
  qed
  from snoc.IH [OF this] obtain p1 where
    p1: "map_of (responsesByKey (run e cfg steps c)) k = Some p1" "promise p1 = promise p"
    by blast
  from snoc.prems have "map_of (responsesByKey (run e cfg (take (length (steps @ [s])) (steps @ [s])) c)) k \<noteq> None"
    by (intro snoc.prems [rule_format]) simp
  then obtain p2 where p2: "map_of (responsesByKey (run e cfg (steps @ [s]) c)) k = Some p2"
    by auto
  with p1 apply_step_promise [of "run e cfg steps c" k p1 e cfg s p2]
  show ?case by (simp add: run_snoc)
qed

text \<open>
  What the callback of \<open>sendCommand\<close> does for a command that expects a reply (every
  command but 3): when it finds no request pending under its key, it creates the promise,
  stores the request, sends it at once to every socket whose \<open>open\<close> promise is resolved
  and queues it on that promise for the others. A second call with the same key, made
  while that request is still pending (whatever frames, commands, socket events and timers
  came in between), returns the same promise and changes nothing: it sends no frame.
\<close>

lemma second_call_returns_pending_promise:
  assumes "command \<noteq> 3"
    and "request_key command second_payload = request_key command payload"
    and "map_of (responsesByKey c) (request_key command payload) = None"
    and "\<forall>n\<le>length steps.
           map_of (responsesByKey (run e cfg (take n steps) (snd (sendCommand e command payload c))))
             (request_key command payload) \<noteq> None"
  shows "fst (sendCommand e command payload c) = Some (promises c) \<and>
         effects (snd (sendCommand e command payload c)) =
           effects c @
           map (\<lambda>i. SocketSend i (JSON_stringify e (spread command payload)))
             (filter (is_open c) [0..<length (sockets c)]) \<and>
         (\<forall>j. waiting (snd (sendCommand e command payload c)) j =
            waiting c j @
            (if socket_at c j \<noteq> None \<and> \<not> is_open c j
             then [JSON_stringify e (spread command payload)] else [])) \<and>
         sendCommand e command second_payload (run e cfg steps (snd (sendCommand e command payload c))) =
           (Some (promises c), run e cfg steps (snd (sendCommand e command payload c)))"
proof -
  let ?key = "request_key command payload"
  let ?request = "JSON_stringify e (spread command payload)"
  let ?registered = "c\<lparr>responsesByKey := assign (responsesByKey c) ?key \<lparr>responses = [], promise = promises c\<rparr>,
                       requestsByKey := assign (requestsByKey c) ?key ?request,
                       promises := promises c + 1\<rparr>"
  let ?c1 = "snd (sendCommand e command payload c)"
  from assms(1,3) have first: "sendCommand e command payload c = (Some (promises c), broadcast ?request ?registered)"
    by (simp add: sendCommand_def Let_def)
  have same: "sockets ?registered = sockets c" by simp
  have sockets_same: "socket_at ?registered = socket_at c" "is_open ?registered = is_open c"
    "waiting ?registered = waiting c"
    by (simp_all only: fun_eq_iff socket_at_def is_open_def waiting_def same) simp_all
  note br = broadcast_result [of ?request ?registered, unfolded sockets_same same]
  from first have c1: "?c1 = broadcast ?request ?registered" by simp
  from first have 1: "fst (sendCommand e command payload c) = Some (promises c)" by simp
  from br have 2: "effects ?c1 = effects c @ map (\<lambda>i. SocketSend i ?request) (filter (is_open c) [0..<length (sockets c)])"
    unfolding c1 by simp
  from br have 3: "\<forall>j. waiting ?c1 j = waiting c j @ (if socket_at c j \<noteq> None \<and> \<not> is_open c j then [?request] else [])"
    unfolding c1 by blast
  from br have pending: "map_of (responsesByKey ?c1) ?key = Some \<lparr>responses = [], promise = promises c\<rparr>"
    unfolding c1 by (simp add: map_of_assign)
  from run_promise [OF pending assms(4)] obtain p where
    p: "map_of (responsesByKey (run e cfg steps ?c1)) ?key = Some p" "promise p = promises c"
    by auto
  with assms(2) have 4: "sendCommand e command second_payload (run e cfg steps ?c1) =
      (Some (promises c), run e cfg steps ?c1)"
    by (simp add: sendCommand_def Let_def)
  from 1 2 3 4 show ?thesis by blast
qed

text \<open>
  C6. Two overlapping calls with the same key are meant to share one promise and to put
  one frame on the wire per peer. The second call does return the promise of the first
  and sends nothing. But the request of the first is both stored in \<open>requestsByKey\<close>, all
  of which \<open>onopen\<close> sends to a socket that opens, and, for a socket that is still
  connecting when the callback runs, queued on its \<open>open\<close> promise: when that socket opens,
  the request is sent to it twice.
\<close>

theorem request_sent_twice_to_reopened_socket:
  "fst (sendCommand example_env 1 [(''identity'', String ''A'')] reopening) = Some 0 \<and>
   sendCommand example_env 1 [(''identity'', String ''A'')]
     (snd (sendCommand example_env 1 [(''identity'', String ''A'')] reopening)) =
     (Some 0, snd (sendCommand example_env 1 [(''identity'', String ''A'')] reopening)) \<and>
   effects (run example_env example_config
      [Command 1 [(''identity'', String ''A'')], Command 1 [(''identity'', String ''A'')], SocketOpened 1]
      reopening) =
     effects reopening @
     [SocketSend 0 (stringify (spread 1 [(''identity'', String ''A'')])),
      SocketSend 2 (stringify (spread 1 [(''identity'', String ''A'')])),
      Emit (Open 1),
      SocketSend 1 (stringify (spread 1 [(''identity'', String ''A'')])),
      SocketSend 1 (stringify (spread 1 [(''identity'', String ''A'')]))]"
  by code_simp

section \<open>The write-ahead outbox\<close>

lemma stored_append: "stored t key \<Longrightarrow> stored (t @ evs) key"
  by (auto simp: stored_def)

lemma stored_put: "stored (t @ [Put key v]) key"
  by (auto simp: stored_def)

lemma stored_nth: "stored t key \<Longrightarrow> \<exists>i<length t. \<exists>v. t ! i = Put key v"
  by (auto simp: stored_def in_set_conv_nth)

lemma write_ahead_snoc:
  assumes old: "write_ahead e t"
    and sub: "\<And>payload. ev = SendCommand 3 payload \<Longrightarrow>
           t \<noteq> [] \<and> (\<exists>digest. last t = Put digest (JSON_stringify e payload))"
    and inc: "\<And>digest tick epoch. ev = Inclusion digest tick epoch \<Longrightarrow>
           t \<noteq> [] \<and> last t = Del digest \<and> (\<exists>i<length t - 1. \<exists>v. t ! i = Put digest v)"
  shows "write_ahead e (t @ [ev])"
  unfolding write_ahead_def
proof (intro allI impI)
  fix j assume j: "j < length (t @ [ev])"
  let ?t = "t @ [ev]"
  show "(\<forall>payload. ?t ! j = SendCommand 3 payload \<longrightarrow>
           0 < j \<and> (\<exists>digest. ?t ! (j - 1) = Put digest (JSON_stringify e payload))) \<and>
        (\<forall>digest tick epoch. ?t ! j = Inclusion digest tick epoch \<longrightarrow>
           0 < j \<and> ?t ! (j - 1) = Del digest \<and> (\<exists>i<j - 1. \<exists>v. ?t ! i = Put digest v))"
  proof (cases "j < length t")
    case True
    then have "j - 1 < length t" by arith
    with True have same: "?t ! j = t ! j" "?t ! (j - 1) = t ! (j - 1)"
      by (simp_all add: nth_append)
    have below: "?t ! i = t ! i" if "i < j - 1" for i
    proof -
      from that True have "i < length t" by arith
      then show ?thesis by (simp add: nth_append)
    qed
    from old True have
      "(\<forall>payload. t ! j = SendCommand 3 payload \<longrightarrow>
           0 < j \<and> (\<exists>digest. t ! (j - 1) = Put digest (JSON_stringify e payload))) \<and>
        (\<forall>digest tick epoch. t ! j = Inclusion digest tick epoch \<longrightarrow>
           0 < j \<and> t ! (j - 1) = Del digest \<and> (\<exists>i<j - 1. \<exists>v. t ! i = Put digest v))"
      unfolding write_ahead_def by blast
    with same below show ?thesis by metis
  next
    case False
    with j have jl: "j = length t" by simp
    then have at: "?t ! j = ev" by simp
    have prev: "?t ! (j - 1) = last t" if "t \<noteq> []"
      using that jl by (simp add: nth_append last_conv_nth)
    have below: "?t ! i = t ! i" if "i < j - 1" for i
    proof -
      from that jl have "i < length t" by arith
      then show ?thesis by (simp add: nth_append)
    qed
    have pos: "0 < j" if "t \<noteq> []" using that jl by simp
    show ?thesis
    proof (rule conjI; intro allI impI)
      fix payload assume "?t ! j = SendCommand 3 payload"
      with at sub [of payload] have "t \<noteq> []" "\<exists>digest. last t = Put digest (JSON_stringify e payload)"
        by simp_all
      with prev pos show "0 < j \<and> (\<exists>digest. ?t ! (j - 1) = Put digest (JSON_stringify e payload))"
        by simp
    next
      fix digest tick epoch assume "?t ! j = Inclusion digest tick epoch"
      with at inc [of digest tick epoch] obtain i v where
        ne: "t \<noteq> []" and l: "last t = Del digest" and i: "i < length t - 1" "t ! i = Put digest v"
        by auto
      from i jl below [of i] have "i < j - 1" "?t ! i = Put digest v" by simp_all
      with ne l prev pos
      show "0 < j \<and> ?t ! (j - 1) = Del digest \<and> (\<exists>i<j - 1. \<exists>v. ?t ! i = Put digest v)"
        by auto
    qed
  qed
qed

lemma write_ahead_others:
  assumes "write_ahead e t"
    and "\<forall>ev\<in>set evs. (\<forall>payload. ev \<noteq> SendCommand 3 payload) \<and> (\<forall>digest tick epoch. ev \<noteq> Inclusion digest tick epoch)"
  shows "write_ahead e (t @ evs)"
  using assms(2)
proof (induction evs rule: rev_induct)
  case Nil
  with assms(1) show ?case by simp
next
  case (snoc ev evs)
  then have 1: "write_ahead e (t @ evs)" by simp
  from snoc.prems have "write_ahead e ((t @ evs) @ [ev])"
    by (intro write_ahead_snoc [OF 1]) auto
  then show ?case by simp
qed

lemma write_ahead_submit:
  assumes "write_ahead e t"
  shows "write_ahead e (t @ [Put digest (JSON_stringify e payload), SendCommand 3 payload])"
proof -
  have 1: "write_ahead e (t @ [Put digest (JSON_stringify e payload)])"
    by (rule write_ahead_snoc [OF assms]) simp_all
  have "write_ahead e ((t @ [Put digest (JSON_stringify e payload)]) @ [SendCommand 3 payload])"
    by (rule write_ahead_snoc [OF 1]) simp_all
  then show ?thesis by simp
qed

lemma write_ahead_include:
  assumes "write_ahead e t" and "stored t key"
  shows "write_ahead e (t @ [Del key, Inclusion key tick epoch])"
proof -
  from stored_nth [OF assms(2)] obtain i v where i: "i < length t" "t ! i = Put key v" by blast
  have 1: "write_ahead e (t @ [Del key])"
    by (rule write_ahead_snoc [OF assms(1)]) simp_all
  have "write_ahead e ((t @ [Del key]) @ [Inclusion key tick epoch])"
  proof (rule write_ahead_snoc [OF 1])
    fix digest tk ep assume "Inclusion key tick epoch = Inclusion digest tk ep"
    then have "digest = key" by simp
    moreover from i have "i < length (t @ [Del key]) - 1" "(t @ [Del key]) ! i = Put key v"
      by (simp_all add: nth_append)
    ultimately show "t @ [Del key] \<noteq> [] \<and> last (t @ [Del key]) = Del digest \<and>
        (\<exists>i<length (t @ [Del key]) - 1. \<exists>v. (t @ [Del key]) ! i = Put digest v)"
      by auto
  qed simp
  then show ?thesis by simp
qed

lemma set_remove_nth: "x \<in> set (remove_nth n xs) \<Longrightarrow> x \<in> set xs"
  by (auto simp: remove_nth_def dest: in_set_takeD in_set_dropD)

lemma onTransaction_frame:
  "trace (onTransaction key c) = trace c"
  "db (onTransaction key c) = db c"
  "querying (onTransaction key c) = querying c"
  "deleting (onTransaction key c) = deleting c"
  by (simp_all add: onTransaction_def)

lemma onTransaction_listeners:
  "x \<in> set (listeners (onTransaction key c)) \<Longrightarrow> x \<in> set (listeners c) \<or> snd x = key"
  by (auto simp: onTransaction_def)

lemma onTransaction_times:
  "trace ((onTransaction key ^^ n) c) = trace c \<and>
   db ((onTransaction key ^^ n) c) = db c \<and>
   querying ((onTransaction key ^^ n) c) = querying c \<and>
   deleting ((onTransaction key ^^ n) c) = deleting c \<and>
   (\<forall>x\<in>set (listeners ((onTransaction key ^^ n) c)). x \<in> set (listeners c) \<or> snd x = key)"
  by (induction n) (auto simp: onTransaction_frame dest: onTransaction_listeners)

lemma onTransaction_keys:
  "trace (fold onTransaction keys c) = trace c \<and>
   db (fold onTransaction keys c) = db c \<and>
   querying (fold onTransaction keys c) = querying c \<and>
   deleting (fold onTransaction keys c) = deleting c \<and>
   (\<forall>x\<in>set (listeners (fold onTransaction keys c)). x \<in> set (listeners c) \<or> snd x \<in> set keys)"
proof (induction keys arbitrary: c)
  case Nil
  show ?case by simp
next
  case (Cons key keys)
  from Cons [of "onTransaction key c"] show ?case
    by (auto simp: onTransaction_frame dest: onTransaction_listeners)
qed

lemma client_inv_traced:
  assumes "client_inv e c"
    and "\<forall>ev\<in>set evs. (\<forall>payload. ev \<noteq> SendCommand 3 payload) \<and> (\<forall>digest tick epoch. ev \<noteq> Inclusion digest tick epoch)"
  shows "client_inv e (traced evs c)"
  using assms
  by (auto simp: client_inv_def traced_def intro: write_ahead_others stored_append)

lemma client_inv_new: "client_inv e (client_new ident [])"
  by (simp add: client_inv_def client_new_def write_ahead_def)

lemma client_inv_transaction:
  "client_inv e c \<Longrightarrow> client_inv e (transaction recipientIdentity energy c)"
proof -
  assume "client_inv e c"
  then have "client_inv e (c\<lparr>preparing := preparing c @ [(recipientIdentity, energy)]\<rparr>)"
    by (simp add: client_inv_def)
  then show ?thesis
    unfolding transaction_def by (rule client_inv_traced) auto
qed

lemma client_inv_prepared:
  assumes "client_inv e c"
  shows "client_inv e (prepared e n nonce_reply energy_reply built c)"
proof (cases "n < length (preparing c)")
  case False
  with assms show ?thesis by (simp add: prepared_def)
next
  case True
  let ?c1 = "c\<lparr>preparing := remove_nth n (preparing c)\<rparr>"
  from assms have 1: "client_inv e ?c1" by (simp add: client_inv_def)
  then have fail: "client_inv e (traced [Failed err] ?c1)" for err
    by (rule client_inv_traced) simp
  from 1 have put: "client_inv e (?c1\<lparr>putting := putting ?c1 @ [t]\<rparr>)" for t
    by (simp add: client_inv_def)
  from True fail put show ?thesis
    by (auto simp: prepared_def Let_def split: prod.splits outcome.splits option.splits)
qed

lemma client_inv_put_done:
  assumes "client_inv e c"
  shows "client_inv e (put_done e n ok c)"
proof (cases "n < length (putting c)")
  case False
  with assms show ?thesis by (simp add: put_done_def)
next
  case True
  obtain messageDigest message signature where p: "putting c ! n = (messageDigest, message, signature)"
    by (cases "putting c ! n") auto
  let ?payload = "[(''message'', String message), (''signature'', String signature)]"
  let ?c1 = "c\<lparr>putting := remove_nth n (putting c)\<rparr>"
  from assms have 1: "client_inv e ?c1" by (simp add: client_inv_def)
  show ?thesis
  proof (cases "ok \<and> db_open c")
    case False
    from 1 have "client_inv e (traced [Failed StoreError] ?c1)"
      by (rule client_inv_traced) simp
    with True False p show ?thesis by (auto simp: put_done_def Let_def)
  next
    case ok: True
    let ?v = "JSON_stringify e ?payload"
    let ?c2 = "traced [Put messageDigest ?v] (?c1\<lparr>db := assign (db ?c1) messageDigest ?v\<rparr>)"
    let ?c3 = "(onTransaction messageDigest ^^ put_handlers ?c1) ?c2"
    let ?c4 = "traced [SendCommand 3 ?payload] ?c3"
    note times = onTransaction_times [where key = messageDigest and n = "put_handlers ?c1" and c = ?c2]
    have t4: "trace ?c4 = trace c @ [Put messageDigest ?v, SendCommand 3 ?payload]"
      using times by (simp add: traced_def)
    have st: "stored (trace ?c4) key" if "stored (trace c) key" for key
      using that unfolding t4 by (rule stored_append)
    have new: "stored (trace ?c4) messageDigest"
      unfolding t4 by (auto simp: stored_def)
    have dbs: "\<forall>x\<in>set (db ?c4). stored (trace ?c4) (fst x)"
    proof
      fix x assume "x \<in> set (db ?c4)"
      with times have "x \<in> set (assign (db c) messageDigest ?v)" by (simp add: traced_def)
      then have "map_of (assign (db c) messageDigest ?v) (fst x) \<noteq> None"
        by (metis domIff map_of_eq_None_iff image_eqI)
      then have "fst x = messageDigest \<or> map_of (db c) (fst x) \<noteq> None"
        by (simp add: map_of_assign split: if_splits)
      then have "fst x = messageDigest \<or> fst x \<in> fst ` set (db c)"
        by (simp add: map_of_eq_None_iff)
      with assms st new show "stored (trace ?c4) (fst x)"
        by (auto simp: client_inv_def)
    qed
    have ls: "\<forall>x\<in>set (listeners ?c4). stored (trace ?c4) (snd x)"
    proof
      fix x assume "x \<in> set (listeners ?c4)"
      with times have "x \<in> set (listeners c) \<or> snd x = messageDigest"
        by (auto simp: traced_def)
      with assms st new show "stored (trace ?c4) (snd x)"
        by (auto simp: client_inv_def)
    qed
    have qs: "\<forall>x\<in>set (querying ?c4). stored (trace ?c4) (snd x)"
      using times assms st by (auto simp: traced_def client_inv_def)
    have ds: "\<forall>x\<in>set (deleting ?c4). stored (trace ?c4) (fst (snd x))"
      using times assms st by (auto simp: traced_def client_inv_def)
    from assms have "write_ahead e (trace c)" by (simp add: client_inv_def)
    then have "write_ahead e (trace ?c4)"
      unfolding t4 by (rule write_ahead_submit)
    with dbs ls qs ds have "client_inv e ?c4" by (simp add: client_inv_def)
    moreover from True ok p have "put_done e n ok c = ?c4"
      by (simp add: put_done_def Let_def)
    ultimately show ?thesis by simp
  qed
qed

lemma client_inv_info_event:
  assumes "client_inv e c"
  shows "client_inv e (info_event syncStatus c)"
proof (cases "syncStatus > 2")
  case False
  with assms show ?thesis by (simp add: info_event_def)
next
  case True
  from assms have "client_inv e (c\<lparr>querying := querying c @ listeners c\<rparr>)"
    by (auto simp: client_inv_def)
  then have "client_inv e
      (traced (map (\<lambda>l. SendCommand 4 [(''messageDigest'', String (snd l))]) (listeners c))
         (c\<lparr>querying := querying c @ listeners c\<rparr>))"
    by (rule client_inv_traced) auto
  with True show ?thesis by (simp add: info_event_def)
qed

lemma client_inv_status_reply:
  assumes "client_inv e c"
  shows "client_inv e (status_reply n response c)"
proof (cases "n < length (querying c)")
  case False
  with assms show ?thesis by (simp add: status_reply_def)
next
  case True
  obtain l key where q: "querying c ! n = (l, key)" by (cases "querying c ! n") auto
  with True have "(l, key) \<in> set (querying c)" by (metis nth_mem)
  with assms have key: "stored (trace c) key" by (auto simp: client_inv_def)
  let ?c1 = "c\<lparr>querying := remove_nth n (querying c)\<rparr>"
  from assms have 1: "client_inv e ?c1"
    by (auto simp: client_inv_def dest: set_remove_nth)
  then have rejection: "client_inv e (traced [Rejection key reason] ?c1)" for reason
    by (rule client_inv_traced) simp
  from 1 key have del: "client_inv e (?c1\<lparr>deleting := deleting ?c1 @ [(l, key, tick, epoch)]\<rparr>)" for tick epoch
    by (auto simp: client_inv_def)
  from True q 1 rejection del show ?thesis
    by (auto simp: status_reply_def Let_def split: outcome.splits)
qed

lemma set_delete: "x \<in> set (delete k kvs) \<Longrightarrow> x \<in> set kvs"
  by (simp add: delete_def)

lemma client_inv_del_done:
  assumes "client_inv e c"
  shows "client_inv e (del_done n ok c)"
proof (cases "n < length (deleting c)")
  case False
  with assms show ?thesis by (simp add: del_done_def)
next
  case True
  obtain l key tick epoch where d: "deleting c ! n = (l, key, tick, epoch)"
    by (cases "deleting c ! n") auto
  with True have "(l, key, tick, epoch) \<in> set (deleting c)" by (metis nth_mem)
  with assms have key: "stored (trace c) key" by (auto simp: client_inv_def)
  let ?c1 = "c\<lparr>deleting := remove_nth n (deleting c)\<rparr>"
  from assms have 1: "client_inv e ?c1"
    by (auto simp: client_inv_def dest: set_remove_nth)
  let ?c2 = "traced [Del key, Inclusion key tick epoch]
                (?c1\<lparr>db := delete key (db ?c1), listeners := filter (\<lambda>x. fst x \<noteq> l) (listeners ?c1)\<rparr>)"
  have t2: "trace ?c2 = trace c @ [Del key, Inclusion key tick epoch]"
    by (simp add: traced_def)
  have st: "stored (trace ?c2) k" if "stored (trace c) k" for k
    using that unfolding t2 by (rule stored_append)
  from assms have "write_ahead e (trace c)" by (simp add: client_inv_def)
  from write_ahead_include [OF this key] have "write_ahead e (trace ?c2)"
    unfolding t2 .
  moreover have "\<forall>x\<in>set (db ?c2). stored (trace ?c2) (fst x)"
    using assms st by (auto simp: traced_def client_inv_def dest: set_delete)
  moreover have "\<forall>x\<in>set (listeners ?c2). stored (trace ?c2) (snd x)"
    using assms st by (auto simp: traced_def client_inv_def)
  moreover have "\<forall>x\<in>set (querying ?c2). stored (trace ?c2) (snd x)"
    using assms st by (auto simp: traced_def client_inv_def)
  moreover have "\<forall>x\<in>set (deleting ?c2). stored (trace ?c2) (fst (snd x))"
  proof
    fix x assume "x \<in> set (deleting ?c2)"
    then have "x \<in> set (remove_nth n (deleting c))" by (simp add: traced_def)
    then have "x \<in> set (deleting c)" by (rule set_remove_nth)
    with assms have "stored (trace c) (fst (snd x))" by (simp add: client_inv_def)
    then show "stored (trace ?c2) (fst (snd x))" by (rule st)
  qed
  ultimately have "client_inv e ?c2" by (simp add: client_inv_def)
  with True d 1 show ?thesis by (simp add: del_done_def Let_def)
qed

lemma client_inv_addEnvironmentListener:
  assumes "client_inv e c"
  shows "client_inv e (addEnvironmentListener environment c)"
proof -
  from assms have "client_inv e (c\<lparr>emittersByEnvironment := emittersByEnvironment c @ [environment]\<rparr>)"
    by (simp add: client_inv_def)
  then have "client_inv e (traced [SendCommand 5 [(''environmentDigest'', String environment)]]
      (c\<lparr>emittersByEnvironment := emittersByEnvironment c @ [environment]\<rparr>))"
    by (rule client_inv_traced) simp
  with assms show ?thesis by (simp add: addEnvironmentListener_def)
qed

lemma client_inv_removeEnvironmentListener:
  assumes "client_inv e c"
  shows "client_inv e (removeEnvironmentListener environment c)"
proof -
  from assms have "client_inv e (traced [SendCommand 6 [(''environmentDigest'', String environment)]] c)"
    by (rule client_inv_traced) simp
  with assms show ?thesis by (simp add: removeEnvironmentListener_def)
qed

lemma client_inv_terminate:
  assumes "client_inv e c"
  shows "client_inv e (terminate closeConnection c)"
proof -
  from assms have "client_inv e (c\<lparr>db_open := False,
          listeners := filter (\<lambda>x. x \<notin> set (infoListeners c)) (listeners c)\<rparr>)"
    by (simp add: client_inv_def)
  then show ?thesis
    unfolding terminate_def by (rule client_inv_traced) auto
qed

lemma client_inv_keys:
  assumes "client_inv e c" and "\<forall>k\<in>set keys. stored (trace c) k"
  shows "client_inv e (fold onTransaction keys c)"
  using assms onTransaction_keys [of keys c]
  by (auto simp: client_inv_def)

lemma client_inv_launch:
  assumes "client_inv e c"
  shows "client_inv e (launch c)"
proof -
  let ?c1 = "traced [ConnectionOpen, DbOpen] (c\<lparr>db_open := True, put_handlers := put_handlers c + 1\<rparr>)"
  from assms have "client_inv e (c\<lparr>db_open := True, put_handlers := put_handlers c + 1\<rparr>)"
    by (simp add: client_inv_def)
  then have 1: "client_inv e ?c1"
    by (rule client_inv_traced) simp
  then have "\<forall>k\<in>set (map fst (db ?c1)). stored (trace ?c1) k"
    by (auto simp: client_inv_def)
  moreover have "db ?c1 = db c" by (simp add: traced_def)
  ultimately have "\<forall>k\<in>set (map fst (db c)). stored (trace ?c1) k" by simp
  from client_inv_keys [OF 1 this] show ?thesis by (simp add: launch_def)
qed

lemma client_inv_restart:
  assumes "client_inv e c"
  shows "client_inv e (restart c)"
proof -
  let ?c0 = "\<lparr>identity = identity c, db = db c, db_open = True, put_handlers = 1, listeners = [],
        infoListeners = [], closures = 0, emittersByEnvironment = [], preparing = [],
        putting = [], querying = [], deleting = [], trace = trace c\<rparr>"
  from assms have 1: "client_inv e ?c0" by (simp add: client_inv_def)
  from assms have "\<forall>k\<in>set (map fst (db c)). stored (trace ?c0) k"
    by (auto simp: client_inv_def)
  from client_inv_keys [OF 1 this] have 2: "client_inv e (fold onTransaction (map fst (db c)) ?c0)" .
  have one: "onTransaction key (c0\<lparr>trace := t\<rparr>) = (onTransaction key c0)\<lparr>trace := t\<rparr>" for key c0 t
    by (simp add: onTransaction_def)
  have same: "fold onTransaction keys (c0\<lparr>trace := t\<rparr>) = (fold onTransaction keys c0)\<lparr>trace := t\<rparr>" for keys c0 t
    by (induction keys arbitrary: c0) (simp_all only: fold_simps o_apply id_apply one)
  have "restart c = fold onTransaction (map fst (db c)) ?c0"
    unfolding restart_def client_new_def same [symmetric] by simp
  with 2 show ?thesis by simp
qed

lemma client_inv_step: "client_inv e c \<Longrightarrow> client_inv e (client_step e a c)"
  by (cases a)
     (simp_all add: client_inv_transaction client_inv_prepared client_inv_put_done
        client_inv_info_event client_inv_status_reply client_inv_del_done
        client_inv_addEnvironmentListener client_inv_removeEnvironmentListener
        client_inv_terminate client_inv_launch client_inv_restart)

lemma client_inv_run: "client_inv e (client_run e ident steps)"
proof -
  have "client_inv e c \<Longrightarrow> client_inv e (fold (client_step e) steps c)" for c
    by (induction steps arbitrary: c) (simp_all add: client_inv_step)
  from this [OF client_inv_new] show ?thesis by (simp add: client_run_def)
qed

text \<open>
  C8. In every history of the client, from an empty store on and through restarts: a
  command 3 is submitted only right after the put of its \<open>{message, signature}\<close> has
  completed, and an \<open>inclusion\<close> event for a digest is emitted only right after the delete of
  that digest has completed, an earlier put having stored it.
\<close>

theorem outbox_is_written_ahead:
  "\<forall>j<length (trace (client_run e ident steps)).
     (\<forall>payload. trace (client_run e ident steps) ! j = SendCommand 3 payload \<longrightarrow>
        0 < j \<and>
        (\<exists>digest. trace (client_run e ident steps) ! (j - 1) = Put digest (JSON_stringify e payload))) \<and>
     (\<forall>digest tick epoch. trace (client_run e ident steps) ! j = Inclusion digest tick epoch \<longrightarrow>
        0 < j \<and> trace (client_run e ident steps) ! (j - 1) = Del digest \<and>
        (\<exists>i<j - 1. \<exists>v. trace (client_run e ident steps) ! i = Put digest v))"
  using client_inv_run [of e ident steps]
  unfolding client_inv_def write_ahead_def by blast

theorem outbox_is_written_ahead_witness:
  "trace (client_run example_env ''A'' included) ! 3 = SendCommand 3 transfer \<and>
   (\<exists>digest. trace (client_run example_env ''A'' included) ! 2 =
      Put digest (JSON_stringify example_env transfer)) \<and>
   trace (client_run example_env ''A'' included) ! 6 = Inclusion ''D1'' (Number 100) (Number 10) \<and>
   trace (client_run example_env ''A'' included) ! 5 = Del ''D1'' \<and>
   (\<exists>i<5. \<exists>v. trace (client_run example_env ''A'' included) ! i = Put ''D1'' v)"
proof -
  let ?t = "trace (client_run example_env ''A'' included)"
  have len: "length ?t = 7" by code_simp
  have t3: "?t ! 3 = SendCommand 3 transfer" by code_simp
  have t6: "?t ! 6 = Inclusion ''D1'' (Number 100) (Number 10)" by code_simp
  note w = outbox_is_written_ahead [of example_env "''A''" included]
  from len have "3 < length ?t" by simp
  with w t3 have "0 < (3::nat) \<and> (\<exists>digest. ?t ! (3 - 1) = Put digest (JSON_stringify example_env transfer))"
    by blast
  then have a: "\<exists>digest. ?t ! 2 = Put digest (JSON_stringify example_env transfer)" by simp
  from len have "6 < length ?t" by simp
  with w t6 have "0 < (6::nat) \<and> ?t ! (6 - 1) = Del ''D1'' \<and> (\<exists>i<6 - 1. \<exists>v. ?t ! i = Put ''D1'' v)"
    by blast
  then have b: "?t ! 5 = Del ''D1'' \<and> (\<exists>i<5. \<exists>v. ?t ! i = Put ''D1'' v)" by simp
  from t3 a t6 b show ?thesis by blast
qed

section \<open>Timer handles\<close>

lemma fresh_setTimeout: "fresh_handles c \<Longrightarrow> fresh_handles (snd (setTimeout now t delay c))"
  by (auto simp: fresh_handles_def setTimeout_def)

lemma fresh_same:
  "timers c' = timers c \<Longrightarrow> handles c' = handles c \<Longrightarrow> fresh_handles c \<Longrightarrow> fresh_handles c'"
  by (simp add: fresh_handles_def)

lemma fresh_filter: "fresh_handles c \<Longrightarrow> fresh_handles (c\<lparr>timers := filter P (timers c)\<rparr>)"
  by (simp add: fresh_handles_def)

lemma reply_update_timers:
  "timers (reply_update key i data m c) = timers c \<and> handles (reply_update key i data m c) = handles c"
  by (simp add: reply_update_def do_effects_def Let_def split: option.splits)

lemma onmessage_timers:
  "timers (onmessage e cfg now i data c) = timers c \<and> handles (onmessage e cfg now i data c) = handles c"
  by (simp add: onmessage_def socket_close_def info_update_def reply_update_timers do_effects_def Let_def
      split: option.splits bool.splits)

lemma fold_send_timers:
  "timers (fold (send_when_open r) is c) = timers c \<and> handles (fold (send_when_open r) is c) = handles c"
  by (induction "is" arbitrary: c) (simp_all add: send_when_open_def do_effects_def split: option.splits)

lemma sendCommand_timers:
  "timers (snd (sendCommand e command payload c)) = timers c \<and>
   handles (snd (sendCommand e command payload c)) = handles c"
  by (simp add: sendCommand_def broadcast_def fold_send_timers Let_def split: option.splits)

lemma resolveOnOpenOrClose_timers:
  "timers (resolveOnOpenOrClose i c) = timers c \<and> handles (resolveOnOpenOrClose i c) = handles c"
  by (simp add: resolveOnOpenOrClose_def do_effects_def split: option.splits)

lemma fresh_socket_onopen: "fresh_handles c \<Longrightarrow> fresh_handles (socket_onopen i c)"
  by (rule fresh_same [of _ c])
     (simp_all add: socket_onopen_def resolveOnOpenOrClose_timers onopen_def do_effects_def)

lemma fresh_socket_onclose: "fresh_handles c \<Longrightarrow> fresh_handles (socket_onclose cfg now i c)"
proof -
  assume f: "fresh_handles c"
  have "fresh_handles (resolveOnOpenOrClose i (do_effects [Emit (Close i)] c))"
    by (rule fresh_same [OF _ _ f]) (simp_all add: resolveOnOpenOrClose_timers do_effects_def)
  with f show ?thesis
    by (auto simp: socket_onclose_def intro: fresh_setTimeout split: option.splits)
qed

lemma fresh_synchronizationRoutine: "fresh_handles c \<Longrightarrow> fresh_handles (synchronizationRoutine cfg now c)"
  by (auto simp: fresh_handles_def synchronizationRoutine_timer)

lemma openSocket_timers:
  "openSocket cfg url i c = Inr c' \<Longrightarrow> timers c' = timers c \<and> handles c' = handles c"
  by (auto simp: openSocket_def do_effects_def Let_def split: if_splits)

lemma fresh_openSocket: "fresh_handles c \<Longrightarrow> openSocket cfg url i c = Inr c' \<Longrightarrow> fresh_handles c'"
  using openSocket_timers [of cfg url i c c'] by (simp add: fresh_handles_def)

lemma fresh_fire: "fresh_handles c \<Longrightarrow> fresh_handles (fire cfg h c)"
  by (auto simp: fire_def run_task_def split: option.splits task.splits sum.splits
      intro: fresh_synchronizationRoutine fresh_filter dest: fresh_openSocket [rotated])

lemma fold_terminate_handles: "handles (fold socket_terminate is c) = handles c"
  by (induction "is" arbitrary: c) (simp_all add: socket_terminate_def do_effects_def split: option.splits)

lemma fresh_close: "fresh_handles c \<Longrightarrow> fresh_handles (close c)"
proof -
  assume f: "fresh_handles c"
  let ?c = "fold socket_terminate [0..<length (sockets c)] c"
  have "fresh_handles ?c"
    by (rule fresh_same [OF _ _ f]) (simp_all add: fold_terminate fold_terminate_handles)
  then have "fresh_handles (clearTimeout (synchronizationTimeout c) ?c)"
    by (auto simp: clearTimeout_def intro: fresh_filter split: option.splits)
  then show ?thesis
    by (simp add: close_def do_effects_def fresh_handles_def)
qed

lemma fresh_apply_step: "fresh_handles c \<Longrightarrow> fresh_handles (apply_step e cfg s c)"
proof (cases s)
  case (Message now i data)
  assume "fresh_handles c"
  then show ?thesis
    unfolding Message apply_step.simps by (rule fresh_same [rotated 2]) (simp_all add: onmessage_timers)
next
  case (Command command payload)
  assume "fresh_handles c"
  then show ?thesis
    unfolding Command apply_step.simps by (rule fresh_same [rotated 2]) (simp_all add: sendCommand_timers)
next
  case (SocketErrored i)
  assume "fresh_handles c"
  then show ?thesis
    unfolding SocketErrored apply_step.simps
    by (rule fresh_same [rotated 2]) (simp_all add: socket_onerror_def do_effects_def)
qed (simp_all add: fresh_socket_onopen fresh_socket_onclose fresh_fire fresh_close)

text \<open>
  The timers of every connection that \<open>createConnection\<close> returned are in that state,
  whatever happened to the connection since.
\<close>

lemma fresh_run:
  assumes "createConnection cfg now = Inr c"
  shows "fresh_handles (run e cfg steps c)"
proof -
  have step: "fresh_handles c0 \<Longrightarrow> fresh_handles (fold (apply_step e cfg) steps c0)" for c0
    by (induction steps arbitrary: c0) (simp_all add: fresh_apply_step)
  have "fresh_handles initial" by (simp add: fresh_handles_def initial_def)
  have opened: "fresh_handles c0 \<Longrightarrow> openSockets cfg is c0 = Inr c1 \<Longrightarrow> fresh_handles c1" for c0 c1 "is"
    by (induction "is" arbitrary: c0) (auto split: sum.splits dest: fresh_openSocket)
  from assms obtain c1 where c1: "openSockets cfg [0..<NUMBER_OF_CONNECTIONS] (initial\<lparr>sockets := []\<rparr>) = Inr c1"
    "c = synchronizationRoutine cfg now c1"
    by (auto simp: createConnection_def open_def split: sum.splits)
  have "fresh_handles (initial\<lparr>sockets := []\<rparr>)" by (simp add: fresh_handles_def initial_def)
  from opened [OF this c1(1)] have "fresh_handles c" unfolding c1(2) by (rule fresh_synchronizationRoutine)
  then show ?thesis unfolding run_def by (rule step)
qed

end
